theory Spec2Isabelle
  imports Complex_Main "HOL-Library.Word" "HOL-Library.Sublist"
begin

section \<open>Floating-point arithmetic of the two programs\<close>

text \<open>
  The programs of \<^verbatim>\<open>src/ch2/ex2_2_difference_quotients_of_the_norm.cpp\<close> compute with the
  C++ types \<^verbatim>\<open>float\<close> and \<^verbatim>\<open>double\<close>. They are modelled as IEEE 754 binary32 and
  binary64 with the default rounding (to nearest, ties to even), every operation rounded
  on its own to the type of its operands. A finite value is the rational number it stands
  for, so the result of an operation is the exact rational result, rounded. The two zeros
  of IEEE 754 are one value here (the programs never divide by a zero, which is the only
  way they could tell them apart), and there is one NaN.
\<close>

record format =
  prec :: int
  emin :: int
  emax :: int

definition binary32 :: format where
  "binary32 = \<lparr>prec = 24, emin = - 126, emax = 127\<rparr>"

definition binary64 :: format where
  "binary64 = \<lparr>prec = 53, emin = - 1022, emax = 1023\<rparr>"

text \<open>\<open>Inf s\<close> is the infinity with sign bit \<open>s\<close> (\<open>True\<close> for negative).\<close>

datatype fpval = Fin rat | Inf bool | NaN

text \<open>The number of binary digits of a positive integer.\<close>

function bitlength :: "int \<Rightarrow> int" where
  "bitlength a = (if 0 < a then bitlength (a div 2) + 1 else 0)"
  by pat_completeness auto
termination
  by (relation "measure nat") auto

declare bitlength.simps [simp del]

text \<open>For \<open>0 < a\<close>, the exponent \<open>e\<close> with \<open>2 ^ e \<le> a < 2 ^ (e + 1)\<close>.\<close>

definition ilog2 :: "rat \<Rightarrow> int" where
  "ilog2 a = (if 1 \<le> a then bitlength \<lfloor>a\<rfloor> - 1 else - bitlength (\<lceil>1 / a\<rceil> - 1))"

text \<open>The nearest integer, a tie going to the even one.\<close>

definition rne :: "rat \<Rightarrow> int" where
  "rne q = (let z = \<lfloor>q\<rfloor>; r = q - of_int z
            in if r < 1 / 2 then z else if 1 / 2 < r then z + 1
               else if even z then z else z + 1)"

text \<open>
  The exponent of the unit in the last place at magnitude \<open>a\<close>: \<open>prec\<close> digits from the
  leading one, but never below the subnormal spacing.
\<close>

definition ulp_exp :: "format \<Rightarrow> rat \<Rightarrow> int" where
  "ulp_exp F a = max (ilog2 a) (emin F) - (prec F - 1)"

definition round_fin :: "format \<Rightarrow> rat \<Rightarrow> rat" where
  "round_fin F q =
     (if q = 0 then 0
      else sgn q * of_int (rne (\<bar>q\<bar> / 2 powi ulp_exp F \<bar>q\<bar>)) * 2 powi ulp_exp F \<bar>q\<bar>)"

text \<open>Rounding an exact result: to the nearest value of the format, to an infinity on overflow.\<close>

definition fround :: "format \<Rightarrow> rat \<Rightarrow> fpval" where
  "fround F q =
     (let r = round_fin F q
      in if \<bar>r\<bar> < 2 powi (emax F + 1) then Fin r else Inf (q < 0))"

fun fp_neg :: "fpval \<Rightarrow> fpval" where
  "fp_neg (Fin a) = Fin (- a)"
| "fp_neg (Inf s) = Inf (\<not> s)"
| "fp_neg NaN = NaN"

fun fp_add :: "format \<Rightarrow> fpval \<Rightarrow> fpval \<Rightarrow> fpval" where
  "fp_add F (Fin a) (Fin b) = fround F (a + b)"
| "fp_add F (Fin a) (Inf t) = Inf t"
| "fp_add F (Inf s) (Fin b) = Inf s"
| "fp_add F (Inf s) (Inf t) = (if s = t then Inf s else NaN)"
| "fp_add F NaN y = NaN"
| "fp_add F x NaN = NaN"

definition fp_sub :: "format \<Rightarrow> fpval \<Rightarrow> fpval \<Rightarrow> fpval" where
  "fp_sub F x y = fp_add F x (fp_neg y)"

fun fp_mul :: "format \<Rightarrow> fpval \<Rightarrow> fpval \<Rightarrow> fpval" where
  "fp_mul F (Fin a) (Fin b) = fround F (a * b)"
| "fp_mul F (Fin a) (Inf t) = (if a = 0 then NaN else Inf (t \<noteq> (a < 0)))"
| "fp_mul F (Inf s) (Fin b) = (if b = 0 then NaN else Inf (s \<noteq> (b < 0)))"
| "fp_mul F (Inf s) (Inf t) = Inf (s \<noteq> t)"
| "fp_mul F NaN y = NaN"
| "fp_mul F x NaN = NaN"

fun fp_div :: "format \<Rightarrow> fpval \<Rightarrow> fpval \<Rightarrow> fpval" where
  "fp_div F (Fin a) (Fin b) =
     (if b = 0 then (if a = 0 then NaN else Inf (a < 0)) else fround F (a / b))"
| "fp_div F (Fin a) (Inf t) = Fin 0"
| "fp_div F (Inf s) (Fin b) = Inf (s \<noteq> (b < 0))"
| "fp_div F (Inf s) (Inf t) = NaN"
| "fp_div F NaN y = NaN"
| "fp_div F x NaN = NaN"

text \<open>The comparison \<^verbatim>\<open>==\<close>: a NaN is equal to nothing.\<close>

definition fp_eq :: "fpval \<Rightarrow> fpval \<Rightarrow> bool" where
  "fp_eq x y = (x \<noteq> NaN \<and> x = y)"

text \<open>A conversion to a format: the value rounded to it.\<close>

fun fp_convert :: "format \<Rightarrow> fpval \<Rightarrow> fpval" where
  "fp_convert F (Fin a) = fround F a"
| "fp_convert F (Inf s) = Inf s"
| "fp_convert F NaN = NaN"

subsection \<open>The types \<^verbatim>\<open>float\<close> and \<^verbatim>\<open>double\<close>\<close>

datatype float = Float (float_val: fpval)

datatype double = Double (double_val: fpval)

instantiation float :: "{zero,one,plus,uminus,minus,times,inverse}"
begin

definition zero_float :: float where
  "zero_float = Float (Fin 0)"

definition one_float :: float where
  "one_float = Float (Fin 1)"

definition plus_float :: "float \<Rightarrow> float \<Rightarrow> float" where
  "plus_float a b = Float (fp_add binary32 (float_val a) (float_val b))"

definition uminus_float :: "float \<Rightarrow> float" where
  "uminus_float a = Float (fp_neg (float_val a))"

definition minus_float :: "float \<Rightarrow> float \<Rightarrow> float" where
  "minus_float a b = Float (fp_sub binary32 (float_val a) (float_val b))"

definition times_float :: "float \<Rightarrow> float \<Rightarrow> float" where
  "times_float a b = Float (fp_mul binary32 (float_val a) (float_val b))"

definition divide_float :: "float \<Rightarrow> float \<Rightarrow> float" where
  "divide_float a b = Float (fp_div binary32 (float_val a) (float_val b))"

definition inverse_float :: "float \<Rightarrow> float" where
  "inverse_float a = Float (fp_div binary32 (Fin 1) (float_val a))"

instance ..

end

instantiation double :: "{zero,one,plus,uminus,minus,times,inverse}"
begin

definition zero_double :: double where
  "zero_double = Double (Fin 0)"

definition one_double :: double where
  "one_double = Double (Fin 1)"

definition plus_double :: "double \<Rightarrow> double \<Rightarrow> double" where
  "plus_double a b = Double (fp_add binary64 (double_val a) (double_val b))"

definition uminus_double :: "double \<Rightarrow> double" where
  "uminus_double a = Double (fp_neg (double_val a))"

definition minus_double :: "double \<Rightarrow> double \<Rightarrow> double" where
  "minus_double a b = Double (fp_sub binary64 (double_val a) (double_val b))"

definition times_double :: "double \<Rightarrow> double \<Rightarrow> double" where
  "times_double a b = Double (fp_mul binary64 (double_val a) (double_val b))"

definition divide_double :: "double \<Rightarrow> double \<Rightarrow> double" where
  "divide_double a b = Double (fp_div binary64 (double_val a) (double_val b))"

definition inverse_double :: "double \<Rightarrow> double" where
  "inverse_double a = Double (fp_div binary64 (Fin 1) (double_val a))"

instance ..

end

text \<open>
  A literal or an integer converted to the type (the nearest value of the type), the two
  conversions between the types, and \<^verbatim>\<open>==\<close>.
\<close>

definition flt :: "rat \<Rightarrow> float" where
  "flt q = Float (fround binary32 q)"

definition dbl :: "rat \<Rightarrow> double" where
  "dbl q = Double (fround binary64 q)"

definition float_of_double :: "double \<Rightarrow> float" where
  "float_of_double a = Float (fp_convert binary32 (double_val a))"

definition double_of_float :: "float \<Rightarrow> double" where
  "double_of_float a = Double (fp_convert binary64 (float_val a))"

definition double_of_u32 :: "32 word \<Rightarrow> double" where
  "double_of_u32 w = dbl (of_nat (unat w))"

definition deq :: "double \<Rightarrow> double \<Rightarrow> bool" where
  "deq a b = fp_eq (double_val a) (double_val b)"

text \<open>
  The accuracy of a computed double: \<open>near m exact v\<close> says that \<open>v\<close> is the nonnegative value
  \<open>exact\<close> up to \<open>m\<close> roundings to nearest, each of which changes a value by a factor
  between \<open>1 - 1 / 2 ^ 53\<close> and \<open>1 + 1 / 2 ^ 53\<close>.
\<close>

definition near :: "nat \<Rightarrow> rat \<Rightarrow> rat \<Rightarrow> bool" where
  "near m exact v \<longleftrightarrow>
     (1 - 1 / 2 ^ 53) ^ m * exact \<le> v \<and> v \<le> (1 + 1 / 2 ^ 53) ^ m * exact"

section \<open>The norm evaluator\<close>

text \<open>
  \<^verbatim>\<open>template<typename T> static T f(T *x, uint32_t n)\<close>: the loop over \<open>i\<close>, with
  \<open>result\<close> as accumulator. The buffer is a list; reading past its end has no defined
  result in C++ and is \<open>None\<close> here. The type variable stands for \<^verbatim>\<open>T\<close>: the function is
  used at \<^typ>\<open>float\<close> and at \<^typ>\<open>double\<close>.
\<close>

function f_loop :: "'a::{plus,times} list \<Rightarrow> 32 word \<Rightarrow> 32 word \<Rightarrow> 'a \<Rightarrow> 'a option" where
  "f_loop x n i result =
     (if i < n
      then (if unat i < length x
            then f_loop x n (i + 1) (result + x ! unat i * x ! unat i)
            else None)
      else Some result)"
  by pat_completeness auto
termination
proof (relation "measure (\<lambda>(x, n, i, result). unat n - unat i)")
  show "wf (measure (\<lambda>(x :: 'a list, n :: 32 word, i :: 32 word, result :: 'a).
      unat n - unat i))"
    by (rule wf_measure)
next
  fix x :: "'a list" and n i :: "32 word" and result :: 'a
  assume "i < n" and "unat i < length x"
  then have lt: "unat i < unat n"
    by (simp only: word_less_nat_alt)
  moreover have "unat n < 2 ^ 32"
    using unsigned_less [of n, where 'a = nat] by simp
  ultimately have "unat i + 1 < 2 ^ 32"
    by linarith
  then have "unat (i + 1) = Suc (unat i)"
    by (simp add: unat_word_ariths)
  with lt have "unat n - unat (i + 1) < unat n - unat i"
    by linarith
  then show "((x, n, i + 1, result + x ! unat i * x ! unat i), (x, n, i, result))
      \<in> measure (\<lambda>(x, n, i, result). unat n - unat i)"
    by (simp only: in_measure prod.case)
qed

declare f_loop.simps [simp del]

definition f :: "'a::{zero,plus,times} list \<Rightarrow> 32 word \<Rightarrow> 'a option" where
  "f x n = f_loop x n 0 0"

text \<open>
  The second program defines \<^verbatim>\<open>static double f(double *x, uint32_t n)\<close> again, with the
  same body and \<^verbatim>\<open>double\<close> for \<^verbatim>\<open>T\<close>: it is \<^term>\<open>f\<close> at type \<^typ>\<open>double\<close>.
\<close>

section \<open>Library functions\<close>

text \<open>
  Modelled from the spec: \<^verbatim>\<open>pow\<close> of the C library is not part of the repository. The
  program calls it as \<^verbatim>\<open>pow(10.0, -k)\<close> and the spec reads the result as
  \<open>h = 10^-k\<close>: for a finite base and a whole exponent the model returns the power,
  rounded to the nearest \<^verbatim>\<open>double\<close>. Other arguments are outside the model (\<open>None\<close>).
\<close>

definition pow :: "double \<Rightarrow> double \<Rightarrow> double option" where
  "pow a b =
     (case (double_val a, double_val b) of
        (Fin x, Fin y) \<Rightarrow>
          if of_int \<lfloor>y\<rfloor> = y \<and> (x \<noteq> 0 \<or> 0 \<le> y) then Some (dbl (x powi \<lfloor>y\<rfloor>)) else None
      | _ \<Rightarrow> None)"

text \<open>
  \<^verbatim>\<open>printf\<close>: the conversions \<^verbatim>\<open>%.pf\<close> (\<^verbatim>\<open>%f\<close> is \<^verbatim>\<open>%.6f\<close>) and \<^verbatim>\<open>%d\<close>. A finite value
  is printed with \<open>p\<close> digits after the point, rounded to nearest (ties to even) from
  its exact value. The one NaN of the model is printed without a sign.
\<close>

definition digit :: "nat \<Rightarrow> char" where
  "digit d = ''0123456789'' ! d"

function decimal :: "nat \<Rightarrow> string" where
  "decimal m = (if m < 10 then [digit m] else decimal (m div 10) @ [digit (m mod 10)])"
  by pat_completeness auto
termination
  by (relation "measure id") auto

declare decimal.simps [simp del]

definition fraction_digits :: "nat \<Rightarrow> nat \<Rightarrow> string" where
  "fraction_digits p m = replicate (p - length (decimal m)) CHR ''0'' @ decimal m"

definition printf_f :: "nat \<Rightarrow> double \<Rightarrow> string" where
  "printf_f p a =
     (case double_val a of
        Fin q \<Rightarrow>
          (let m = nat (rne (\<bar>q\<bar> * 10 ^ p))
           in (if q < 0 then ''-'' else []) @ decimal (m div 10 ^ p) @
              (if p = 0 then [] else ''.'' @ fraction_digits p (m mod 10 ^ p)))
      | Inf s \<Rightarrow> (if s then ''-inf'' else ''inf'')
      | NaN \<Rightarrow> ''nan'')"

text \<open>\<^verbatim>\<open>%d\<close> given a \<^verbatim>\<open>uint32_t\<close>: its bits read as an \<^verbatim>\<open>int\<close>.\<close>

definition printf_d :: "32 word \<Rightarrow> string" where
  "printf_d w =
     (if sint w < 0 then ''-'' @ decimal (nat (- sint w)) else decimal (nat (sint w)))"

definition EXIT_SUCCESS :: int where
  "EXIT_SUCCESS = 0"

section \<open>Experiment 2: the scaled scan\<close>

text \<open>\<^verbatim>\<open>constexpr size_t N = 1024; constexpr double gamma = 100.0;\<close>\<close>

definition N_scan :: "64 word" where
  "N_scan = 1024"

definition gamma :: double where
  "gamma = dbl 100"

text \<open>
  \<^verbatim>\<open>init_data\<close>: \<open>data[i] = (i + 1)/gamma\<close> for \<open>i < nelem\<close>, with \<open>i\<close> a \<^verbatim>\<open>uint32_t\<close> and
  \<open>nelem\<close> a \<^verbatim>\<open>size_t\<close>. A write past the end of the buffer is \<open>None\<close>; so is a loop that
  does not end.
\<close>

partial_function (option) init_data_loop ::
    "double list \<Rightarrow> 64 word \<Rightarrow> double \<Rightarrow> 32 word \<Rightarrow> double list option" where
  "init_data_loop data nelem g i =
     (if unat i < unat nelem
      then (if unat i < length data
            then init_data_loop (data[unat i := double_of_u32 (i + 1) / g]) nelem g (i + 1)
            else None)
      else Some data)"

definition init_data :: "double list \<Rightarrow> 64 word \<Rightarrow> double \<Rightarrow> double list option" where
  "init_data data nelem g = init_data_loop data nelem g 0"

text \<open>
  Lines 246 to 250 of the file, the difference for one pair: the two writes to
  \<open>x[0]\<close>, the two evaluations of \<open>f\<close>, and the scaling by \<open>gamma*gamma\<close>. The result is
  \<open>err\<close> and the buffer as the statements leave it.
\<close>

definition difference :: "double \<Rightarrow> double list \<Rightarrow> 32 word \<Rightarrow> (double \<times> double list) option" where
  "difference h x n =
     (if x = [] then None
      else
        (let x1 = x[0 := (dbl 1 + h) / gamma] in
         case f x1 n of
           None \<Rightarrow> None
         | Some err1 \<Rightarrow>
             (let x2 = x1[0 := dbl 1 / gamma] in
              case f x2 n of
                None \<Rightarrow> None
              | Some err2 \<Rightarrow> Some ((err1 - err2) * (gamma * gamma), x2))))"

text \<open>The three lines the program prints.\<close>

definition line_err :: "double \<Rightarrow> 32 word \<Rightarrow> double \<Rightarrow> string" where
  "line_err k n err =
     ''k: '' @ printf_f 0 k @ '' n: '' @ printf_d n @ '' err '' @ printf_f 6 err"

definition line_difference_underflown :: "double \<Rightarrow> 32 word \<Rightarrow> string" where
  "line_difference_underflown k n =
     ''difference underflown for k: '' @ printf_f 0 k @ '' n: '' @ printf_d n"

definition line_underflow :: "double \<Rightarrow> string" where
  "line_underflow k = ''underflow for 10^-'' @ printf_f 0 k"

text \<open>
  The two loops of \<^verbatim>\<open>main\<close> as a machine. \<open>Outer_head\<close> is the top of \<^verbatim>\<open>for (;;)\<close>,
  \<open>Inner_head\<close> the test \<open>n < array_size(x)\<close> of the inner loop, \<open>Finish\<close> the label
  \<^verbatim>\<open>finish\<close>. The state holds the variables of \<^verbatim>\<open>main\<close> and the lines printed so far.
\<close>

datatype location = Outer_head | Inner_head | Finish

record state =
  pc :: location
  var_k :: double
  var_h :: double
  var_n :: "32 word"
  var_x :: "double list"
  stdout :: "string list"

definition step :: "state \<Rightarrow> state option" where
  "step s =
     (case pc s of
        Outer_head \<Rightarrow>
          (case pow (dbl 10) (- var_k s) of
             None \<Rightarrow> None
           | Some h \<Rightarrow>
               if deq h (dbl 0)
               then Some (s\<lparr>var_h := h, stdout := stdout s @ [line_underflow (var_k s)],
                           pc := Finish\<rparr>)
               else Some (s\<lparr>var_h := h, var_n := 1, pc := Inner_head\<rparr>))
      | Inner_head \<Rightarrow>
          if unat (var_n s) < unat N_scan
          then
            (case difference (var_h s) (var_x s) (var_n s) of
               None \<Rightarrow> None
             | Some (err, x') \<Rightarrow>
                 if deq err (dbl 0)
                 then
                   (let s' = s\<lparr>var_x := x',
                              stdout := stdout s @
                                [line_difference_underflown (var_k s) (var_n s)]\<rparr>
                    in if var_n s = 1 then Some (s'\<lparr>pc := Finish\<rparr>)
                       else Some (s'\<lparr>var_k := var_k s + dbl 1, pc := Outer_head\<rparr>))
                 else
                   Some (s\<lparr>var_x := x',
                           stdout := stdout s @
                             [line_err (var_k s) (var_n s) (err / var_h s - dbl 2)],
                           var_n := var_n s * 10\<rparr>))
          else Some (s\<lparr>var_k := var_k s + dbl 1, pc := Outer_head\<rparr>)
      | Finish \<Rightarrow> Some s)"

text \<open>Running the machine to \<open>Finish\<close>; \<open>None\<close> when it never gets there.\<close>

partial_function (option) run :: "state \<Rightarrow> state option" where
  "run s = (if pc s = Finish then Some s else Option.bind (step s) run)"

text \<open>
  The state at the first test of the outer loop. \<open>h\<close> and \<open>n\<close> are not declared yet
  there; both are written before they are read.
\<close>

definition start :: "double list \<Rightarrow> state" where
  "start x = \<lparr>pc = Outer_head, var_k = dbl 0, var_h = dbl 0, var_n = 0, var_x = x,
              stdout = []\<rparr>"

text \<open>
  \<^verbatim>\<open>main\<close> of the second program. \<open>stack\<close> is what the array \<^verbatim>\<open>double x[N]\<close> holds before
  it is initialised. \<open>scan\<close> is the state at \<^verbatim>\<open>finish\<close>; \<open>main_scan\<close> is what the process
  leaves: its exit status and its output.
\<close>

definition scan :: "(nat \<Rightarrow> double) \<Rightarrow> state option" where
  "scan stack =
     Option.bind (init_data (map stack [0..<unat N_scan]) N_scan gamma) (\<lambda>x. run (start x))"

definition main_scan :: "(nat \<Rightarrow> double) \<Rightarrow> (int \<times> string list) option" where
  "main_scan stack = map_option (\<lambda>s. (EXIT_SUCCESS, stdout s)) (scan stack)"

text \<open>The buffer as \<^verbatim>\<open>init_data(x, array_size(x), gamma)\<close> leaves it: \<open>x[i] = (i + 1)/gamma\<close>.\<close>

definition base_vector :: "double list" where
  "base_vector = map (\<lambda>i. double_of_u32 (of_nat i + 1) / gamma) [0..<1024]"

text \<open>The states the scan passes through.\<close>

inductive reaches :: "state \<Rightarrow> state \<Rightarrow> bool" where
  reaches_refl: "reaches s s"
| reaches_step: "reaches s t \<Longrightarrow> pc t \<noteq> Finish \<Longrightarrow> step t = Some u \<Longrightarrow> reaches s u"

section \<open>Experiment 1: the norm of random data\<close>

text \<open>
  The first program draws its data from the GNU Scientific Library and seeds the
  generator from \<^verbatim>\<open>gettimeofday\<close>. Neither is part of the repository: what they answer is
  the program's environment, a record. \<open>'r\<close> is the state of a generator;
  \<open>gsl_rng_alloc\<close> is \<open>None\<close> when the library returns \<^verbatim>\<open>NULL\<close>.
\<close>

record 'r environment =
  gettimeofday_status :: "32 word"
  gettimeofday_usec :: "64 word"
  gsl_rng_alloc :: "'r option"
  gsl_rng_set :: "'r \<Rightarrow> 64 word \<Rightarrow> 'r"
  gsl_ran_flat :: "'r \<Rightarrow> double \<Rightarrow> double \<Rightarrow> double \<times> 'r"

text \<open>A failed \<^verbatim>\<open>assert\<close> aborts the process.\<close>

datatype 'a outcome = Aborted | Returned 'a

text \<open>
  \<^verbatim>\<open>get_and_check_time_of_day\<close> and \<^verbatim>\<open>get_seed_from_time_of_day\<close>: the microseconds of
  the time of day, after \<^verbatim>\<open>assert(status == 0)\<close>.
\<close>

definition get_seed_from_time_of_day :: "'r environment \<Rightarrow> 64 word outcome" where
  "get_seed_from_time_of_day env =
     (if gettimeofday_status env = 0 then Returned (gettimeofday_usec env) else Aborted)"

text \<open>\<^verbatim>\<open>get_gsl_rng\<close>: the allocation, \<^verbatim>\<open>assert(rng != NULL)\<close>, and the seeding.\<close>

definition get_gsl_rng :: "'r environment \<Rightarrow> 'r outcome" where
  "get_gsl_rng env =
     (case gsl_rng_alloc env of
        None \<Rightarrow> Aborted
      | Some rng \<Rightarrow>
          (case get_seed_from_time_of_day env of
             Aborted \<Rightarrow> Aborted
           | Returned seed \<Rightarrow> Returned (gsl_rng_set env rng seed)))"

text \<open>
  \<^verbatim>\<open>init_data_uniform\<close>: \<open>data[i] = gsl_ran_flat(rng, -a, a)\<close> for \<open>i < nelem\<close>. \<open>conv\<close> is
  the conversion of the \<^verbatim>\<open>double\<close> drawn to \<^verbatim>\<open>T\<close>. The result is the buffer and the
  generator as the loop leaves them.
\<close>

partial_function (option) init_data_uniform_loop ::
    "(double \<Rightarrow> 'a) \<Rightarrow> 'r environment \<Rightarrow> 'a list \<Rightarrow> 'r \<Rightarrow> 64 word \<Rightarrow> float \<Rightarrow> 32 word
      \<Rightarrow> ('a list \<times> 'r) option" where
  "init_data_uniform_loop conv env data rng nelem a i =
     (if unat i < unat nelem
      then (if unat i < length data
            then init_data_uniform_loop conv env
                   (data[unat i :=
                      conv (fst (gsl_ran_flat env rng (double_of_float (- a)) (double_of_float a)))])
                   (snd (gsl_ran_flat env rng (double_of_float (- a)) (double_of_float a)))
                   nelem a (i + 1)
            else None)
      else Some (data, rng))"

definition init_data_uniform ::
    "(double \<Rightarrow> 'a) \<Rightarrow> 'r environment \<Rightarrow> 'a list \<Rightarrow> 'r \<Rightarrow> 64 word \<Rightarrow> float
      \<Rightarrow> ('a list \<times> 'r) option" where
  "init_data_uniform conv env data rng nelem a = init_data_uniform_loop conv env data rng nelem a 0"

text \<open>
  The generator after \<open>i\<close> draws from \<open>[lo, hi)\<close>, and the \<open>i\<close>-th draw (counted from
  \<open>0\<close>): \<^verbatim>\<open>gsl_ran_flat\<close> called again and again on the same generator.
\<close>

primrec rng_after :: "'r environment \<Rightarrow> 'r \<Rightarrow> double \<Rightarrow> double \<Rightarrow> nat \<Rightarrow> 'r" where
  "rng_after env rng lo hi 0 = rng"
| "rng_after env rng lo hi (Suc i) = snd (gsl_ran_flat env (rng_after env rng lo hi i) lo hi)"

definition draw :: "'r environment \<Rightarrow> 'r \<Rightarrow> double \<Rightarrow> double \<Rightarrow> nat \<Rightarrow> double" where
  "draw env rng lo hi i = fst (gsl_ran_flat env (rng_after env rng lo hi i) lo hi)"

text \<open>\<^verbatim>\<open>constexpr size_t N = 2048; constexpr uint32_t n = 12;\<close>\<close>

definition N_norm :: "64 word" where
  "N_norm = 2048"

definition n_norm :: "32 word" where
  "n_norm = 12"

text \<open>
  \<^verbatim>\<open>main\<close> of the first program. \<open>stack_f\<close> and \<open>stack\<close> are what the arrays \<^verbatim>\<open>x_f\<close> and
  \<^verbatim>\<open>x\<close> hold before they are initialised. The result is \<open>Aborted\<close>, or the exit status with
  the lines printed; \<open>None\<close> is reserved for a read or write out of bounds and for a loop
  that does not end.
\<close>

definition main_norm ::
    "'r environment \<Rightarrow> (nat \<Rightarrow> float) \<Rightarrow> (nat \<Rightarrow> double) \<Rightarrow> (int \<times> string list) outcome option" where
  "main_norm env stack_f stack =
     (case get_gsl_rng env of
        Aborted \<Rightarrow> Some Aborted
      | Returned rng \<Rightarrow>
          Option.bind
            (init_data_uniform float_of_double env (map stack_f [0..<unat N_norm]) rng N_norm
               (flt 1))
            (\<lambda>(x_f, rng1).
               Option.bind
                 (init_data_uniform (\<lambda>v. v) env (map stack [0..<unat N_norm]) rng1 N_norm (flt 1))
                 (\<lambda>(x, rng2).
                    Option.bind (f x_f n_norm)
                      (\<lambda>r_f.
                         Option.bind (f x n_norm)
                           (\<lambda>r.
                              Some (Returned (EXIT_SUCCESS,
                                [printf_f 5 (double_of_float r_f), printf_f 5 r])))))))"

section \<open>Facts about rounding\<close>

lemmas float_ops = zero_float_def one_float_def plus_float_def times_float_def minus_float_def
  divide_float_def uminus_float_def flt_def

lemmas double_ops = zero_double_def one_double_def plus_double_def times_double_def
  minus_double_def divide_double_def uminus_double_def dbl_def

lemma bitlength_nonpos: "a \<le> 0 \<Longrightarrow> bitlength a = 0"
  by (subst bitlength.simps) simp

lemma bitlength_pos: "0 < a \<Longrightarrow> bitlength a = bitlength (a div 2) + 1"
  by (subst bitlength.simps) simp

lemma bitlength_ge0: "0 \<le> bitlength a"
  by (induction a rule: bitlength.induct) (subst bitlength.simps, simp)

lemma bitlength_bounds:
  "0 < a \<Longrightarrow> 1 \<le> bitlength a \<and> 2 ^ nat (bitlength a - 1) \<le> a \<and> a < 2 ^ nat (bitlength a)"
proof (induction a rule: bitlength.induct)
  case (1 a)
  show ?case
  proof (cases "a = 1")
    case True
    then have "bitlength a = 1"
      by (simp add: bitlength_pos bitlength_nonpos)
    with True show ?thesis by simp
  next
    case False
    with "1.prems" have h: "0 < a div 2" by simp
    from "1.IH" [OF "1.prems" h] obtain
      b1: "1 \<le> bitlength (a div 2)" and
      b2: "2 ^ nat (bitlength (a div 2) - 1) \<le> a div 2" and
      b3: "a div 2 < 2 ^ nat (bitlength (a div 2))"
      by blast
    have eq: "bitlength a = bitlength (a div 2) + 1"
      using "1.prems" by (rule bitlength_pos)
    have n1: "nat (bitlength (a div 2) + 1 - 1) = Suc (nat (bitlength (a div 2) - 1))"
      using b1 by simp
    have n2: "nat (bitlength (a div 2) + 1) = Suc (nat (bitlength (a div 2)))"
      using b1 by simp
    have "2 * 2 ^ nat (bitlength (a div 2) - 1) \<le> a"
      using b2 by linarith
    moreover have "a < 2 * 2 ^ nat (bitlength (a div 2))"
      using b3 by linarith
    ultimately show ?thesis
      using b1 unfolding eq n1 n2 by simp
  qed
qed

lemma ilog2_bounds:
  assumes "0 < a"
  shows "2 powi ilog2 a \<le> a \<and> a < 2 powi (ilog2 a + 1)"
proof (cases "1 \<le> a")
  case True
  define N where "N = \<lfloor>a\<rfloor>"
  define b where "b = bitlength N"
  from True have N1: "1 \<le> N"
    by (simp add: N_def)
  then have "0 < N" by simp
  from bitlength_bounds [OF this] have
    b1: "1 \<le> b" and b2: "2 ^ nat (b - 1) \<le> N" and b3: "N < 2 ^ nat b"
    by (simp_all add: b_def)
  have il: "ilog2 a = b - 1"
    using True by (simp add: ilog2_def N_def b_def)
  have "(2::rat) ^ nat (b - 1) = of_int (2 ^ nat (b - 1))"
    by simp
  also have "\<dots> \<le> of_int N"
    using b2 by (simp only: of_int_le_iff)
  also have "\<dots> \<le> a"
    by (simp add: N_def)
  finally have lo: "(2::rat) powi (b - 1) \<le> a"
    using b1 by (simp add: power_int_nonneg_exp)
  have "a < of_int N + 1"
    using floor_correct [of a] by (simp add: N_def)
  also have "\<dots> = of_int (N + 1)"
    by simp
  also have "\<dots> \<le> of_int (2 ^ nat b)"
    using b3 by (simp only: of_int_le_iff)
  also have "\<dots> = (2::rat) ^ nat b"
    by simp
  finally have hi: "a < (2::rat) powi b"
    using b1 by (simp add: power_int_nonneg_exp)
  show ?thesis
    using lo hi by (simp add: il)
next
  case False
  define M where "M = \<lceil>1 / a\<rceil>"
  define c where "c = bitlength (M - 1)"
  from False assms have inv1: "1 < 1 / a"
    by simp
  have up: "1 / a \<le> of_int M"
    by (simp add: M_def)
  have dn: "of_int (M - 1) < 1 / a"
    using ceiling_correct [of "1 / a"] by (simp add: M_def)
  from inv1 up have "(1::rat) < of_int M"
    by linarith
  then have "1 < M"
    by simp
  then have "0 < M - 1" by simp
  from bitlength_bounds [OF this] have
    c1: "1 \<le> c" and c2: "2 ^ nat (c - 1) \<le> M - 1" and c3: "M - 1 < 2 ^ nat c"
    by (simp_all add: c_def)
  have il: "ilog2 a = - c"
    using False by (simp add: ilog2_def M_def c_def)
  have "of_int M \<le> (of_int (2 ^ nat c) :: rat)"
    using c3 by (simp only: of_int_le_iff)
  then have "of_int M \<le> (2::rat) ^ nat c"
    by simp
  with up have "1 / a \<le> (2::rat) ^ nat c"
    by linarith
  with assms have "1 / (2::rat) ^ nat c \<le> a"
    by (simp add: field_simps)
  then have lo: "(2::rat) powi (- c) \<le> a"
    using c1 by (simp add: power_int_minus_divide power_int_nonneg_exp)
  have "(of_int (2 ^ nat (c - 1)) :: rat) \<le> of_int (M - 1)"
    using c2 by (simp only: of_int_le_iff)
  then have "(2::rat) ^ nat (c - 1) \<le> of_int (M - 1)"
    by simp
  with dn have "(2::rat) ^ nat (c - 1) < 1 / a"
    by linarith
  with assms have "a < 1 / (2::rat) ^ nat (c - 1)"
    by (simp add: field_simps)
  moreover have "(2::rat) powi (- c + 1) = 1 / 2 ^ nat (c - 1)"
  proof -
    have "- c + 1 = - (c - 1)" by simp
    then show ?thesis
      using c1 by (simp only: power_int_minus_divide) (simp add: power_int_nonneg_exp)
  qed
  ultimately have hi: "a < (2::rat) powi (- c + 1)"
    by simp
  show ?thesis
    using lo hi by (simp add: il)
qed

lemma ilog2_unique:
  assumes "0 < a" and "2 powi e \<le> a" and "a < 2 powi (e + 1)"
  shows "ilog2 a = e"
proof (rule ccontr)
  assume ne: "ilog2 a \<noteq> e"
  from ilog2_bounds [OF assms(1)] have
    lo: "2 powi ilog2 a \<le> a" and hi: "a < 2 powi (ilog2 a + 1)"
    by simp_all
  show False
  proof (cases "ilog2 a < e")
    case True
    then have "ilog2 a + 1 \<le> e" by simp
    then have "(2::rat) powi (ilog2 a + 1) \<le> 2 powi e"
      by (rule power_int_increasing) simp
    with hi assms(2) show False by linarith
  next
    case False
    with ne have "e + 1 \<le> ilog2 a" by simp
    then have "(2::rat) powi (e + 1) \<le> 2 powi ilog2 a"
      by (rule power_int_increasing) simp
    with lo assms(3) show False by linarith
  qed
qed

lemma rne_of_int: "rne (of_int z) = z"
  by (simp add: rne_def)

lemma floor_rat_numeral: "\<lfloor>numeral a / numeral b :: rat\<rfloor> = numeral a div numeral b"
  by (metis floor_divide_of_int_eq of_int_numeral)

lemma floor_rat_one_numeral: "\<lfloor>1 / numeral b :: rat\<rfloor> = 1 div numeral b"
  by (metis floor_divide_of_int_eq of_int_numeral of_int_1)

lemma ceiling_rat_numeral: "\<lceil>numeral a / numeral b :: rat\<rceil> = - (- numeral a div numeral b)"
  by (metis ceiling_def floor_divide_of_int_eq minus_divide_left of_int_minus of_int_numeral)

lemma ceiling_rat_one_numeral: "\<lceil>1 / numeral b :: rat\<rceil> = - (- 1 div numeral b)"
  by (metis ceiling_def floor_divide_of_int_eq minus_divide_left of_int_minus of_int_numeral of_int_1)

lemma bitlength_numeral: "bitlength (numeral k) = bitlength (numeral k div 2) + 1"
  by (rule bitlength_pos) simp

lemma bitlength_1: "bitlength 1 = 1"
  by (simp add: bitlength_pos bitlength_nonpos)

lemma bitlength_0: "bitlength 0 = 0"
  by (simp add: bitlength_nonpos)

lemmas fp_eval = fround_def round_fin_def ulp_exp_def ilog2_def rne_def binary32_def binary64_def
  Let_def floor_rat_numeral floor_rat_one_numeral ceiling_rat_numeral ceiling_rat_one_numeral
  bitlength_numeral bitlength_1 bitlength_0


section \<open>Exact and stuck sums\<close>

lemma round_fin_exact:
  assumes "\<bar>q\<bar> = of_int m * 2 powi ulp_exp F \<bar>q\<bar>"
  shows "round_fin F q = q"
proof (cases "q = 0")
  case True
  then show ?thesis by (simp add: round_fin_def)
next
  case False
  let ?u = "(2::rat) powi ulp_exp F \<bar>q\<bar>"
  have pos: "0 < ?u" by simp
  have "\<bar>q\<bar> / ?u = of_int m"
    using assms pos by (simp add: field_simps)
  then have "rne (\<bar>q\<bar> / ?u) = m"
    by (simp add: rne_of_int)
  then have "round_fin F q = sgn q * (of_int m * ?u)"
    using False by (simp add: round_fin_def)
  also have "\<dots> = sgn q * \<bar>q\<bar>"
    using assms by simp
  also have "\<dots> = q"
    by (simp add: sgn_mult_abs)
  finally show ?thesis .
qed

lemma ilog2_int_range:
  assumes "1 \<le> a" and "a \<le> 2 ^ nat p" and "0 \<le> p"
  shows "0 \<le> ilog2 a \<and> ilog2 a \<le> p"
proof -
  from assms(1) have apos: "0 < a" by simp
  from ilog2_bounds [OF apos] have
    lo: "2 powi ilog2 a \<le> a" and hi: "a < 2 powi (ilog2 a + 1)"
    by simp_all
  have "0 \<le> ilog2 a"
  proof (rule ccontr)
    assume "\<not> 0 \<le> ilog2 a"
    then have "ilog2 a + 1 \<le> 0" by simp
    then have "(2::rat) powi (ilog2 a + 1) \<le> 2 powi 0"
      by (rule power_int_increasing) simp
    with hi assms(1) show False by simp
  qed
  moreover have "ilog2 a \<le> p"
  proof (rule ccontr)
    assume "\<not> ilog2 a \<le> p"
    then have "p + 1 \<le> ilog2 a" by simp
    then have "(2::rat) powi (p + 1) \<le> 2 powi ilog2 a"
      by (rule power_int_increasing) simp
    moreover have "(2::rat) powi (p + 1) = 2 * 2 ^ nat p"
      using assms(3) by (simp add: power_int_nonneg_exp nat_add_distrib)
    ultimately have "2 * 2 ^ nat p \<le> a"
      using lo by linarith
    moreover have "(0::rat) < 2 ^ nat p" by simp
    ultimately show False
      using assms(2) by linarith
  qed
  ultimately show ?thesis ..
qed

lemma round_fin_int:
  assumes "1 \<le> prec F" and "emin F \<le> 0" and "\<bar>z\<bar> \<le> 2 ^ nat (prec F)"
  shows "round_fin F (of_int z) = of_int z"
proof (cases "z = 0")
  case True
  then show ?thesis by (simp add: round_fin_def)
next
  case False
  define a :: rat where "a = \<bar>of_int z\<bar>"
  define p where "p = prec F"
  define e where "e = ilog2 a"
  define u where "u = e - p + 1"
  have a_int: "a = of_int \<bar>z\<bar>"
    by (simp add: a_def)
  from False have "1 \<le> \<bar>z\<bar>"
    by simp
  then have a1: "1 \<le> a"
    unfolding a_int by (simp only: of_int_1_le_iff)
  have a2: "a \<le> 2 ^ nat p"
  proof -
    have "(of_int \<bar>z\<bar> :: rat) \<le> of_int (2 ^ nat p)"
      using assms(3) unfolding p_def by (simp only: of_int_le_iff)
    then show ?thesis by (simp add: a_int)
  qed
  have p0: "0 \<le> p" using assms(1) by (simp add: p_def)
  from ilog2_int_range [OF a1 a2 p0] have e0: "0 \<le> e" and ep: "e \<le> p"
    by (simp_all add: e_def)
  have ulp: "ulp_exp F a = u"
    using e0 assms(2) by (simp add: ulp_exp_def u_def e_def p_def max_def)
  have "\<exists>m. a = of_int m * 2 powi u"
  proof (cases "u \<le> 0")
    case True
    have "(2::rat) powi u = 1 / 2 ^ nat (- u)"
      using True by (metis power_int_minus_divide power_int_nonneg_exp minus_minus neg_0_le_iff_le)
    then have "a = of_int (\<bar>z\<bar> * 2 ^ nat (- u)) * 2 powi u"
      by (simp add: a_int)
    then show ?thesis ..
  next
    case False
    with ep have u1: "u = 1" and epp: "e = p"
      by (simp_all add: u_def)
    from ilog2_bounds [of a] a1 have "2 powi e \<le> a"
      by (simp add: e_def)
    then have "2 ^ nat p \<le> a"
      using p0 by (simp add: epp power_int_nonneg_exp)
    with a2 have aeq: "a = 2 ^ nat p" by simp
    from assms(1) have "nat p = Suc (nat (p - 1))"
      by (simp add: p_def)
    then have "a = of_int (2 ^ nat (p - 1)) * 2 powi u"
      by (simp add: aeq u1)
    then show ?thesis ..
  qed
  then obtain m where "\<bar>of_int z :: rat\<bar> = of_int m * 2 powi ulp_exp F \<bar>of_int z\<bar>"
    using ulp by (auto simp: a_def)
  then show ?thesis
    by (rule round_fin_exact)
qed

lemma round_fin_tiny:
  assumes "0 < q" and "q < 2 powi (emin F - prec F)" and "0 \<le> prec F"
  shows "round_fin F q = 0"
proof -
  define e where "e = ilog2 q"
  define u where "u = emin F - prec F + 1"
  from ilog2_bounds [OF assms(1)] have lo: "2 powi e \<le> q"
    by (simp add: e_def)
  have elt: "e < emin F - prec F"
  proof (rule ccontr)
    assume "\<not> e < emin F - prec F"
    then have "emin F - prec F \<le> e" by simp
    then have "(2::rat) powi (emin F - prec F) \<le> 2 powi e"
      by (rule power_int_increasing) simp
    with lo assms(2) show False by linarith
  qed
  have ulp: "ulp_exp F \<bar>q\<bar> = u"
    using elt assms(1,3) by (simp add: ulp_exp_def u_def e_def max_def)
  have "(2::rat) powi u = 2 powi (emin F - prec F) * 2"
    by (simp add: u_def power_int_add)
  with assms(2) have "q < 2 powi u / 2"
    by simp
  then have half: "q / 2 powi u < 1 / 2"
    by (simp add: field_simps)
  have nonneg: "0 \<le> q / 2 powi u"
    using assms(1) by simp
  have fl: "\<lfloor>q / 2 powi u\<rfloor> = 0"
  proof -
    have "q / 2 powi u < 1"
      using half by linarith
    with nonneg show ?thesis
      by (simp only: floor_eq_iff) simp
  qed
  have "rne (q / 2 powi u) = 0"
    using half by (simp add: rne_def fl)
  then show ?thesis
    using assms(1) ulp by (simp add: round_fin_def)
qed

lemma fround_int:
  assumes "1 \<le> prec F" and "emin F \<le> 0" and "prec F \<le> emax F"
    and "\<bar>z\<bar> \<le> 2 ^ nat (prec F)"
  shows "fround F (of_int z) = Fin (of_int z)"
proof -
  have r: "round_fin F (of_int z) = of_int z"
    using assms(1,2,4) by (rule round_fin_int)
  have "(of_int \<bar>z\<bar> :: rat) \<le> of_int (2 ^ nat (prec F))"
    using assms(4) by (simp only: of_int_le_iff)
  then have "\<bar>of_int z :: rat\<bar> \<le> 2 powi prec F"
    using assms(1) by (simp add: power_int_nonneg_exp)
  also have "(2::rat) powi prec F < 2 powi (emax F + 1)"
    using assms(3) by (intro power_int_strict_increasing) simp_all
  finally show ?thesis
    by (simp add: fround_def r)
qed

lemma fround32_int: "\<bar>z\<bar> \<le> 16777216 \<Longrightarrow> fround binary32 (of_int z) = Fin (of_int z)"
  by (rule fround_int) (simp_all add: binary32_def)

lemma fround64_int: "\<bar>z\<bar> \<le> 9007199254740992 \<Longrightarrow> fround binary64 (of_int z) = Fin (of_int z)"
  by (rule fround_int) (simp_all add: binary64_def)

lemma fround32_nat: "j \<le> 16777216 \<Longrightarrow> fround binary32 (of_nat j) = Fin (of_nat j)"
  using fround32_int [of "int j"] by simp

lemma fround64_nat: "j \<le> 9007199254740992 \<Longrightarrow> fround binary64 (of_nat j) = Fin (of_nat j)"
  using fround64_int [of "int j"] by simp

lemma fround32_stuck: "fround binary32 16777217 = Fin 16777216"
  by (simp add: fp_eval)

section \<open>Facts about the norm evaluator\<close>

lemma unat_succ: "(i :: 32 word) < n \<Longrightarrow> unat (i + 1) = Suc (unat i)"
proof -
  assume "i < n"
  then have "unat i < unat n"
    by (simp only: word_less_nat_alt)
  moreover have "unat n < 2 ^ 32"
    using unsigned_less [of n, where 'a = nat] by simp
  ultimately have "unat i + 1 < 2 ^ 32"
    by linarith
  then show ?thesis
    by (simp add: unat_word_ariths)
qed

lemma f_loop_fold:
  "unat i \<le> unat n \<Longrightarrow> unat n \<le> length x \<Longrightarrow>
   f_loop x n i result =
     Some (foldl (\<lambda>r v. r + v * v) result (take (unat n - unat i) (drop (unat i) x)))"
proof (induction x n i result rule: f_loop.induct)
  case (1 x n i result)
  let ?g = "\<lambda>r v. r + v * v"
  show ?case
  proof (cases "i < n")
    case True
    then have lt: "unat i < unat n"
      by (simp add: word_less_nat_alt)
    from True have suc: "unat (i + 1) = Suc (unat i)"
      by (rule unat_succ)
    from lt "1.prems" have inx: "unat i < length x"
      by simp
    have le: "unat (i + 1) \<le> unat n"
      using lt suc by simp
    have cons: "take (unat n - unat i) (drop (unat i) x)
        = x ! unat i # take (unat n - unat (i + 1)) (drop (unat (i + 1)) x)"
      unfolding suc using lt inx
      by (metis Cons_nth_drop_Suc Suc_diff_Suc take_Suc_Cons)
    have "f_loop x n i result = f_loop x n (i + 1) (result + x ! unat i * x ! unat i)"
      using True inx by (subst f_loop.simps) (simp only: if_True)
    also have "\<dots> = Some (foldl ?g (result + x ! unat i * x ! unat i)
        (take (unat n - unat (i + 1)) (drop (unat (i + 1)) x)))"
      by (rule "1.IH" [OF True inx le "1.prems"(2)])
    also have "\<dots> = Some (foldl ?g result (take (unat n - unat i) (drop (unat i) x)))"
      by (simp only: cons foldl_Cons)
    finally show ?thesis .
  next
    case False
    with "1.prems" have "unat i = unat n"
      by (simp add: word_less_nat_alt)
    with False show ?thesis
      by (subst f_loop.simps) simp
  qed
qed

lemma f_fold:
  "unat n \<le> length x \<Longrightarrow>
   f x n = Some (foldl (\<lambda>result x_i. result + x_i * x_i) 0 (take (unat n) x))"
  using f_loop_fold [of 0 n x 0] by (simp add: f_def)

lemma float_one_squared: "(1::float) * 1 = 1"
  using fround32_int [of 1] by (simp add: float_ops)

lemma double_one_squared: "(1::double) * 1 = 1"
  using fround64_int [of 1] by (simp add: double_ops)

lemma replicate_snoc: "replicate (Suc j) v = replicate j v @ [v]"
  by (simp add: replicate_append_same)

lemma float_ones_fold:
  "foldl (\<lambda>result x_i. result + x_i * x_i) 0 (replicate j (1::float)) =
     Float (Fin (of_nat (min j 16777216)))"
proof (induction j)
  case 0
  show ?case by (simp add: zero_float_def)
next
  case (Suc j)
  have "foldl (\<lambda>result x_i. result + x_i * x_i) 0 (replicate (Suc j) (1::float)) =
      Float (Fin (of_nat (min j 16777216))) + 1"
    by (simp only: replicate_snoc foldl_append Suc.IH foldl_Cons foldl_Nil float_one_squared)
  also have "\<dots> = Float (fround binary32 (of_nat (min j 16777216) + 1))"
    by (simp add: plus_float_def one_float_def)
  also have "fround binary32 (of_nat (min j 16777216) + 1) = Fin (of_nat (min (Suc j) 16777216))"
  proof (cases "j < 16777216")
    case True
    then have "fround binary32 (of_nat (Suc j)) = Fin (of_nat (Suc j))"
      by (intro fround32_nat) simp
    with True show ?thesis
      by (simp add: min_def add.commute)
  next
    case False
    then show ?thesis
      by (simp add: min_def fround32_stuck)
  qed
  finally show ?case .
qed

lemma double_ones_fold:
  "j \<le> 9007199254740992 \<Longrightarrow>
   foldl (\<lambda>result x_i. result + x_i * x_i) 0 (replicate j (1::double)) = Double (Fin (of_nat j))"
proof (induction j)
  case 0
  show ?case by (simp add: zero_double_def)
next
  case (Suc j)
  then have IH: "foldl (\<lambda>result x_i. result + x_i * x_i) 0 (replicate j (1::double)) =
      Double (Fin (of_nat j))"
    by simp
  have "foldl (\<lambda>result x_i. result + x_i * x_i) 0 (replicate (Suc j) (1::double)) =
      Double (Fin (of_nat j)) + 1"
    by (simp only: replicate_snoc foldl_append IH foldl_Cons foldl_Nil double_one_squared)
  also have "\<dots> = Double (fround binary64 (of_nat (Suc j)))"
    by (simp add: plus_double_def one_double_def add.commute)
  also have "fround binary64 (of_nat (Suc j)) = Fin (of_nat (Suc j))"
    using Suc.prems by (rule fround64_nat)
  finally show ?case .
qed

lemma f_float_ones:
  "unat n \<le> m \<Longrightarrow>
   f (replicate m (1::float)) n = Some (Float (Fin (of_nat (min (unat n) 16777216))))"
  by (simp add: f_fold float_ones_fold min_absorb1)

lemma f_double_ones:
  assumes "unat n \<le> m"
  shows "f (replicate m (1::double)) n = Some (Double (Fin (of_nat (unat n))))"
proof -
  have "unat n < 2 ^ 32"
    using unsigned_less [of n, where 'a = nat] by simp
  then have "unat n \<le> 9007199254740992"
    by simp
  then show ?thesis
    using assms by (simp add: f_fold double_ones_fold min_absorb1)
qed

text \<open>
  C5. Given a buffer and a length \<open>n\<close> within it, \<open>f\<close> returns the sum of the squares of
  the first \<open>n\<close> components, accumulated one after the other from the left, starting from
  zero: \<open>((0 + x\<^sub>0 * x\<^sub>0) + x\<^sub>1 * x\<^sub>1) + \<dots>\<close>. The statement is for every type \<^verbatim>\<open>T\<close>
  with a zero, an addition and a multiplication, so for \<^typ>\<open>float\<close> and for
  \<^typ>\<open>double\<close>, each with its own rounded operations; \<open>f\<close> is a function of the buffer and
  \<open>n\<close>, so the same input gives the same result.
\<close>

theorem f_sums_left_to_right:
  fixes x :: "'a::{zero,plus,times} list"
  shows "unat n \<le> length x \<Longrightarrow>
    f x n = Some (foldl (\<lambda>result x_i. result + x_i * x_i) 0 (take (unat n) x))"
  by (rule f_fold)

theorem f_sums_left_to_right_witness:
  "f [flt 1, flt 2, flt 3] 2 = Some ((0 + flt 1 * flt 1) + flt 2 * flt 2) \<and>
   f [dbl 1, dbl 2, dbl 3] 2 = Some ((0 + dbl 1 * dbl 1) + dbl 2 * dbl 2) \<and>
   f [dbl 1, dbl 2, dbl 3] 2 = Some (dbl 5)"
  using f_sums_left_to_right [of 2 "[flt 1, flt 2, flt 3]"]
    f_sums_left_to_right [of 2 "[dbl 1, dbl 2, dbl 3]"]
  by (simp add: double_ops fp_eval)

text \<open>
  C10. The result of \<open>f x n\<close> depends only on the first \<open>n\<close> components of the buffer: two
  buffers of length at least \<open>n\<close> that agree on the indices \<open>0\<close> to \<open>n - 1\<close> give the same
  result, whatever they hold after that.
\<close>

theorem f_reads_only_the_first_n:
  fixes x y :: "'a::{zero,plus,times} list"
  assumes "unat n \<le> length x" and "unat n \<le> length y"
    and "\<forall>i<unat n. x ! i = y ! i"
  shows "f x n = f y n"
proof -
  have "take (unat n) x = take (unat n) y"
    using assms by (intro nth_equalityI) simp_all
  then show ?thesis
    using assms(1,2) by (simp add: f_fold)
qed

theorem f_reads_only_the_first_n_witness:
  "f [dbl 1, dbl 2, dbl 3] 2 = f [dbl 1, dbl 2, dbl 7, dbl 9] 2 \<and>
   f [flt 1, flt 2, flt 3] 2 = f [flt 1, flt 2, flt 7, flt 9] 2"
proof -
  have u: "unat (2 :: 32 word) = 2"
    by simp
  have agree: "\<forall>i<unat (2 :: 32 word). [a, b, c] ! i = [a, b, d, e] ! i" for a b c d e :: 'a
    unfolding u by (auto simp: nth_Cons')
  have "f [dbl 1, dbl 2, dbl 3] 2 = f [dbl 1, dbl 2, dbl 7, dbl 9] 2"
    by (rule f_reads_only_the_first_n [OF _ _ agree]) simp_all
  moreover have "f [flt 1, flt 2, flt 3] 2 = f [flt 1, flt 2, flt 7, flt 9] 2"
    by (rule f_reads_only_the_first_n [OF _ _ agree]) simp_all
  ultimately show ?thesis
    by simp
qed

section \<open>Evaluating concrete values\<close>

lemmas dbl_eval = double_ops fp_eval fp_sub_def deq_def fp_eq_def gamma_def

lemma replicate_numeral_eval: "replicate (numeral k) c = c # replicate (pred_numeral k) c"
  by (simp add: numeral_eq_Suc)

lemmas printf_eval = printf_f_def printf_d_def decimal.simps digit_def fraction_digits_def
  replicate_numeral_eval

section \<open>Facts about the scan\<close>

lemma difference_result:
  assumes "x \<noteq> []" and "unat n \<le> length x"
  shows "difference h x n =
    Some ((foldl (\<lambda>result x_i. result + x_i * x_i) 0 (take (unat n) (x[0 := (dbl 1 + h) / gamma]))
           - foldl (\<lambda>result x_i. result + x_i * x_i) 0 (take (unat n) (x[0 := dbl 1 / gamma])))
          * (gamma * gamma),
          x[0 := dbl 1 / gamma])"
  using assms by (simp add: difference_def f_fold Let_def)

text \<open>
  C1. For a pair \<open>(k, n)\<close> with step \<open>h\<close>, the raw difference is computed so: \<open>x[0]\<close> is set
  to \<open>(1 + h)/gamma\<close> and \<open>f\<close> is evaluated over the first \<open>n\<close> components; \<open>x[0]\<close> is set
  back to \<open>1/gamma\<close> and \<open>f\<close> is evaluated again; the second value is subtracted from the
  first and the difference is multiplied by \<open>gamma * gamma\<close>. The buffer is left with
  \<open>x[0] = 1/gamma\<close>. (The buffer must hold at least \<open>n\<close> components, and at least one.)
\<close>

theorem difference_is_scaled_forward_difference:
  assumes "x \<noteq> []" and "unat n \<le> length x"
  shows "\<exists>f_plus f_base.
    f (x[0 := (dbl 1 + h) / gamma]) n = Some f_plus \<and>
    f (x[0 := dbl 1 / gamma]) n = Some f_base \<and>
    difference h x n = Some ((f_plus - f_base) * (gamma * gamma), x[0 := dbl 1 / gamma])"
  using assms by (simp add: difference_result f_fold)

theorem difference_is_scaled_forward_difference_witness:
  "(\<exists>f_plus f_base.
      f ([dbl 7, dbl 2][0 := (dbl 1 + dbl 1) / gamma]) 1 = Some f_plus \<and>
      f ([dbl 7, dbl 2][0 := dbl 1 / gamma]) 1 = Some f_base \<and>
      difference (dbl 1) [dbl 7, dbl 2] 1 =
        Some ((f_plus - f_base) * (gamma * gamma), [dbl 7, dbl 2][0 := dbl 1 / gamma])) \<and>
   difference (dbl 1) [dbl 7, dbl 2] 1 =
     Some (Double (Fin (6755399441055745 / 2251799813685248)), [dbl 1 / gamma, dbl 2])"
proof -
  have "difference (dbl 1) [dbl 7, dbl 2] 1 =
     Some (Double (Fin (6755399441055745 / 2251799813685248)), [dbl 1 / gamma, dbl 2])"
    by (simp add: difference_result dbl_eval)
  then show ?thesis
    using difference_is_scaled_forward_difference [of "[dbl 7, dbl 2]" 1 "dbl 1"]
    by simp
qed

lemma step_inner_zero:
  assumes "pc s = Inner_head" and "unat (var_n s) < unat N_scan"
    and "difference (var_h s) (var_x s) (var_n s) = Some (err, x')" and "deq err (dbl 0)"
  shows "step s = Some (if var_n s = 1
      then s\<lparr>var_x := x',
              stdout := stdout s @ [line_difference_underflown (var_k s) (var_n s)],
              pc := Finish\<rparr>
      else s\<lparr>var_x := x',
              stdout := stdout s @ [line_difference_underflown (var_k s) (var_n s)],
              var_k := var_k s + dbl 1, pc := Outer_head\<rparr>)"
  using assms by (simp add: step_def Let_def)

text \<open>
  C2. When the difference computed for a pair \<open>(k, n)\<close> is exactly zero, the program prints
  the line \<^verbatim>\<open>difference underflown for k: .. n: ..\<close> for that pair and leaves the inner loop.
  It goes to \<^verbatim>\<open>finish\<close>, where the whole scan ends, if and only if \<open>n = 1\<close>; otherwise it goes
  on at the top of the outer loop with \<open>k + 1\<close>.
\<close>

theorem zero_difference_ends_inner_loop:
  assumes "pc s = Inner_head" and "unat (var_n s) < unat N_scan"
    and "difference (var_h s) (var_x s) (var_n s) = Some (err, x')" and "deq err (dbl 0)"
  shows "\<exists>s'. step s = Some s' \<and>
    stdout s' = stdout s @ [line_difference_underflown (var_k s) (var_n s)] \<and>
    pc s' \<noteq> Inner_head \<and>
    (pc s' = Finish \<longleftrightarrow> var_n s = 1) \<and>
    (var_n s = 1 \<longrightarrow> run s = Some s') \<and>
    (var_n s \<noteq> 1 \<longrightarrow> pc s' = Outer_head \<and> var_k s' = var_k s + dbl 1 \<and> run s = run s')"
proof (cases "var_n s = 1")
  case True
  let ?s' = "s\<lparr>var_x := x',
      stdout := stdout s @ [line_difference_underflown (var_k s) (var_n s)], pc := Finish\<rparr>"
  have st: "step s = Some ?s'"
    using step_inner_zero [OF assms] True by simp
  have "run s = run ?s'"
    using assms(1) st by (subst run.simps) simp
  also have "\<dots> = Some ?s'"
    by (subst run.simps) simp
  finally show ?thesis
    using st True by simp
next
  case False
  let ?s' = "s\<lparr>var_x := x',
      stdout := stdout s @ [line_difference_underflown (var_k s) (var_n s)],
      var_k := var_k s + dbl 1, pc := Outer_head\<rparr>"
  have st: "step s = Some ?s'"
    using step_inner_zero [OF assms] False by simp
  have "run s = run ?s'"
    using assms(1) st by (subst run.simps) simp
  then show ?thesis
    using st False by simp
qed

theorem zero_difference_ends_inner_loop_witness:
  "(\<exists>s'. step \<lparr>pc = Inner_head, var_k = dbl 16, var_h = dbl (1 / 10 ^ 16), var_n = 1,
               var_x = [dbl 7], stdout = []\<rparr> = Some s' \<and>
      run \<lparr>pc = Inner_head, var_k = dbl 16, var_h = dbl (1 / 10 ^ 16), var_n = 1,
               var_x = [dbl 7], stdout = []\<rparr> = Some s' \<and>
      stdout s' = [''difference underflown for k: 16 n: 1''] \<and> pc s' = Finish) \<and>
   (\<exists>s'. step \<lparr>pc = Inner_head, var_k = dbl 16, var_h = dbl (1 / 10 ^ 16), var_n = 2,
               var_x = [dbl 7, dbl 3], stdout = []\<rparr> = Some s' \<and>
      stdout s' = [''difference underflown for k: 16 n: 2''] \<and> pc s' = Outer_head \<and>
      var_k s' = dbl 17)"
proof -
  let ?s1 = "\<lparr>pc = Inner_head, var_k = dbl 16, var_h = dbl (1 / 10 ^ 16), var_n = 1,
               var_x = [dbl 7], stdout = []\<rparr>"
  let ?s2 = "\<lparr>pc = Inner_head, var_k = dbl 16, var_h = dbl (1 / 10 ^ 16), var_n = 2,
               var_x = [dbl 7, dbl 3], stdout = []\<rparr>"
  have d1: "difference (var_h ?s1) (var_x ?s1) (var_n ?s1) = Some (dbl 0, [dbl 1 / gamma])"
    by (simp add: difference_result dbl_eval)
  have d2: "difference (var_h ?s2) (var_x ?s2) (var_n ?s2) = Some (dbl 0, [dbl 1 / gamma, dbl 3])"
    by (simp add: difference_result dbl_eval)
  have z: "deq (dbl 0) (dbl 0)"
    by (simp add: dbl_eval)
  have l1: "line_difference_underflown (dbl 16) 1 = ''difference underflown for k: 16 n: 1''"
    unfolding line_difference_underflown_def printf_f_def printf_d_def
    by (simp add: dbl_eval) (simp add: printf_eval)
  have l2: "line_difference_underflown (dbl 16) 2 = ''difference underflown for k: 16 n: 2''"
    unfolding line_difference_underflown_def printf_f_def printf_d_def
    by (simp add: dbl_eval) (simp add: printf_eval)
  have k: "dbl 16 + dbl 1 = dbl 17"
    by (simp add: dbl_eval)
  have n1: "unat (var_n ?s1) < unat N_scan" and n2: "unat (var_n ?s2) < unat N_scan"
    by (simp_all add: N_scan_def)
  have p1: "pc ?s1 = Inner_head" and p2: "pc ?s2 = Inner_head"
    by simp_all
  from zero_difference_ends_inner_loop [OF p1 n1 d1 z] obtain t1 where
    "step ?s1 = Some t1" "run ?s1 = Some t1"
    "stdout t1 = [''difference underflown for k: 16 n: 1'']" "pc t1 = Finish"
    by (auto simp: l1)
  moreover from zero_difference_ends_inner_loop [OF p2 n2 d2 z] obtain t2 where
    "step ?s2 = Some t2"
    "stdout t2 = [''difference underflown for k: 16 n: 2'']" "pc t2 = Outer_head"
    "var_k t2 = dbl 17"
    by (auto simp: l2 k)
  ultimately show ?thesis
    by blast
qed

lemma init_data_loop_result:
  assumes "unat i \<le> unat nelem" and "unat nelem \<le> length data" and "unat nelem < 2 ^ 32"
  shows "init_data_loop data nelem g i =
    Some (take (unat i) data @
          map (\<lambda>j. double_of_u32 (of_nat j + 1) / g) [unat i..<unat nelem] @
          drop (unat nelem) data)"
  using assms
proof (induction "unat nelem - unat i" arbitrary: i data)
  case 0
  then have "unat i = unat nelem"
    by simp
  then show ?case
    by (subst init_data_loop.simps) simp
next
  case (Suc d)
  then have lt: "unat i < unat nelem"
    by simp
  with Suc.prems have inx: "unat i < length data" and small: "unat i + 1 < 2 ^ 32"
    by simp_all
  have suc: "unat (i + 1) = Suc (unat i)"
    using small by (simp add: unat_word_ariths)
  have ofn: "(of_nat (unat i) :: 32 word) = i"
    by simp
  let ?v = "double_of_u32 (i + 1) / g"
  have "init_data_loop data nelem g i = init_data_loop (data[unat i := ?v]) nelem g (i + 1)"
    using lt inx by (subst init_data_loop.simps) simp
  also have "\<dots> = Some (take (unat (i + 1)) (data[unat i := ?v]) @
      map (\<lambda>j. double_of_u32 (of_nat j + 1) / g) [unat (i + 1)..<unat nelem] @
      drop (unat nelem) (data[unat i := ?v]))"
    using Suc.hyps(2) Suc.prems lt suc by (intro Suc.hyps(1)) simp_all
  also have "take (unat (i + 1)) (data[unat i := ?v]) = take (unat i) data @ [?v]"
    using inx by (simp add: suc take_Suc_conv_app_nth)
  also have "drop (unat nelem) (data[unat i := ?v]) = drop (unat nelem) data"
    using lt by simp
  also have "(take (unat i) data @ [?v]) @
      map (\<lambda>j. double_of_u32 (of_nat j + 1) / g) [unat (i + 1)..<unat nelem] @
      drop (unat nelem) data =
    take (unat i) data @
      map (\<lambda>j. double_of_u32 (of_nat j + 1) / g) [unat i..<unat nelem] @
      drop (unat nelem) data"
    using lt by (simp add: suc upt_conv_Cons ofn)
  finally show ?case .
qed

lemma init_data_base: "init_data (map stack [0..<unat N_scan]) N_scan gamma = Some base_vector"
proof -
  have "init_data_loop (map stack [0..<unat N_scan]) N_scan gamma 0 =
    Some (take (unat (0 :: 32 word)) (map stack [0..<unat N_scan]) @
          map (\<lambda>j. double_of_u32 (of_nat j + 1) / gamma) [unat (0 :: 32 word)..<unat N_scan] @
          drop (unat N_scan) (map stack [0..<unat N_scan]))"
    by (rule init_data_loop_result) (simp_all add: N_scan_def)
  then show ?thesis
    by (simp add: init_data_def base_vector_def N_scan_def)
qed

lemma scan_run: "scan stack = run (start base_vector)"
  by (simp add: scan_def init_data_base)

lemma base_vector_length: "length base_vector = 1024"
  by (simp add: base_vector_def)

lemma base_vector_nth: "i < 1024 \<Longrightarrow> base_vector ! i = double_of_u32 (of_nat i + 1) / gamma"
  by (simp add: base_vector_def)

lemma double_of_u32_1: "double_of_u32 1 = dbl 1"
  by (simp add: double_of_u32_def)

lemma base_vector_0: "base_vector ! 0 = dbl 1 / gamma"
  using base_vector_nth [of 0] by (simp add: double_of_u32_1)

lemma difference_buffer:
  "difference h x n = Some (err, x') \<Longrightarrow> x' = x[0 := dbl 1 / gamma]"
  by (auto simp: difference_def Let_def split: if_splits option.splits)

lemma step_keeps_base_vector:
  assumes "step t = Some u" and "var_x t = base_vector"
  shows "var_x u = base_vector"
proof (cases "pc t")
  case Outer_head
  with assms show ?thesis
    by (auto simp: step_def split: option.splits if_splits)
next
  case Inner_head
  have "base_vector[0 := dbl 1 / gamma] = base_vector"
    using base_vector_0 by (metis list_update_id)
  with Inner_head assms show ?thesis
    by (auto simp: step_def Let_def split: option.splits if_splits dest!: difference_buffer)
next
  case Finish
  with assms show ?thesis
    by (simp add: step_def)
qed

lemma reaches_base_vector:
  "reaches s0 s \<Longrightarrow> var_x s0 = base_vector \<Longrightarrow> var_x s = base_vector"
  by (induction rule: reaches.induct) (auto intro: step_keeps_base_vector)

text \<open>
  C9. Throughout the scan every component \<open>x[i]\<close> with \<open>i \<ge> 1\<close> keeps the value
  \<open>(i + 1)/gamma\<close> that \<^verbatim>\<open>init_data\<close> gave it, and whenever the inner loop is at its head,
  about to evaluate a pair \<open>(k, n)\<close>, \<open>x[0]\<close> is \<open>1/gamma\<close>: every pair is evaluated on
  the same base vector. The scan starts on that vector whatever the array held before.
\<close>

theorem scan_keeps_base_vector:
  assumes "reaches (start base_vector) s"
  shows "scan stack = run (start base_vector) \<and>
    length (var_x s) = 1024 \<and>
    (\<forall>i. 1 \<le> i \<and> i < 1024 \<longrightarrow> var_x s ! i = double_of_u32 (of_nat i + 1) / gamma) \<and>
    (pc s = Inner_head \<longrightarrow> var_x s ! 0 = dbl 1 / gamma)"
proof -
  have "var_x s = base_vector"
    using assms by (rule reaches_base_vector) (simp add: start_def)
  then show ?thesis
    by (simp add: scan_run base_vector_length base_vector_nth base_vector_0)
qed

lemma pow_10_0: "pow (dbl 10) (- dbl 0) = Some (dbl 1)"
  by (simp add: pow_def dbl_eval)

lemma dbl_1_ne_0: "\<not> deq (dbl 1) (dbl 0)"
  by (simp add: dbl_eval)

lemma step_start:
  "step (start x) = Some \<lparr>pc = Inner_head, var_k = dbl 0, var_h = dbl 1, var_n = 1, var_x = x,
     stdout = []\<rparr>"
  by (simp add: step_def start_def pow_10_0 dbl_1_ne_0)

theorem scan_keeps_base_vector_witness:
  "var_x \<lparr>pc = Inner_head, var_k = dbl 0, var_h = dbl 1, var_n = 1, var_x = base_vector,
     stdout = []\<rparr> ! 0 = dbl 1 / gamma \<and>
   var_x \<lparr>pc = Inner_head, var_k = dbl 0, var_h = dbl 1, var_n = 1, var_x = base_vector,
     stdout = []\<rparr> ! 5 = dbl 6 / gamma \<and>
   reaches (start base_vector) \<lparr>pc = Inner_head, var_k = dbl 0, var_h = dbl 1, var_n = 1,
     var_x = base_vector, stdout = []\<rparr>"
proof -
  let ?s = "\<lparr>pc = Inner_head, var_k = dbl 0, var_h = dbl 1, var_n = 1, var_x = base_vector,
     stdout = []\<rparr>"
  have r: "reaches (start base_vector) ?s"
    by (rule reaches_step [OF reaches_refl _ step_start]) (simp add: start_def)
  have "double_of_u32 (of_nat 5 + 1) = dbl 6"
    by (simp add: double_of_u32_def)
  then show ?thesis
    using scan_keeps_base_vector [OF r] r by auto
qed

text \<open>
  C7, as the code has it. For an all-ones buffer of length at least \<open>n\<close>, \<open>f\<close> returns
  exactly \<open>n\<close> in double precision, for every \<open>n\<close> of its 32-bit type. In single
  precision it returns exactly \<open>n\<close> as long as \<open>n \<le> 16777216 = 2^24\<close>, and \<open>16777216\<close> for
  every larger \<open>n\<close>: adding \<open>1\<close> to \<open>2^24\<close> rounds back to \<open>2^24\<close>.
\<close>

theorem f_all_ones:
  assumes "unat n \<le> m"
  shows "f (replicate m (1::double)) n = Some (Double (Fin (of_nat (unat n)))) \<and>
    f (replicate m (1::float)) n = Some (Float (Fin (of_nat (min (unat n) 16777216))))"
  using assms by (simp add: f_float_ones f_double_ones)

theorem f_all_ones_witness:
  "f (replicate 5 (1::double)) 3 = Some (dbl 3) \<and> f (replicate 5 (1::float)) 3 = Some (flt 3)"
proof -
  have "unat (3 :: 32 word) \<le> 5"
    by simp
  from f_all_ones [OF this] show ?thesis
    by (simp add: dbl_def flt_def fp_eval)
qed

text \<open>
  The claim as stated fails in single precision: over \<open>16777218\<close> ones, with
  \<open>n = 16777218\<close> (a value of the type \<^verbatim>\<open>float\<close>), \<open>f\<close> returns \<open>16777216\<close>.
\<close>

theorem f_all_ones_float_counterexample:
  "f (replicate 16777218 (1::float)) 16777218 = Some (Float (Fin 16777216)) \<and>
   flt 16777218 = Float (Fin 16777218) \<and>
   f (replicate 16777218 (1::float)) 16777218 \<noteq> Some (flt 16777218)"
proof -
  have "unat (16777218 :: 32 word) \<le> 16777218"
    by simp
  from f_float_ones [OF this]
  have a: "f (replicate 16777218 (1::float)) 16777218 = Some (Float (Fin 16777216))"
    by simp
  have b: "flt 16777218 = Float (Fin 16777218)"
    by (simp add: flt_def fp_eval)
  show ?thesis
    by (simp add: a b)
qed

section \<open>The scan halts\<close>

lemma run_step: "pc s \<noteq> Finish \<Longrightarrow> step s = Some t \<Longrightarrow> run s = run t"
  by (subst run.simps) simp

lemma run_finish: "pc s = Finish \<Longrightarrow> run s = Some s"
  by (subst run.simps) simp

lemma step_appends: "step s = Some t \<Longrightarrow> prefix (stdout s) (stdout t)"
  by (cases "pc s")
    (auto simp: step_def Let_def split: option.splits if_splits prod.splits)

lemma run_appends:
  assumes "run s = Some t"
  shows "prefix (stdout s) (stdout t)"
proof (rule run.raw_induct [where P = "\<lambda>s t. prefix (stdout s) (stdout t)", OF _ assms])
  fix run' :: "state \<Rightarrow> state option" and s t
  assume IH: "\<And>s t. run' s = Some t \<Longrightarrow> prefix (stdout s) (stdout t)"
    and eq: "(if pc s = Finish then Some s else Option.bind (step s) run') = Some t"
  show "prefix (stdout s) (stdout t)"
  proof (cases "pc s = Finish")
    case True
    with eq show ?thesis by simp
  next
    case False
    with eq obtain u where u: "step s = Some u" and r: "run' u = Some t"
      by (auto simp: bind_eq_Some_conv)
    from step_appends [OF u] IH [OF r] show ?thesis
      by (rule prefix_order.trans)
  qed
qed

lemma base_vector_nonempty: "base_vector \<noteq> []"
  using base_vector_length by (metis length_0_conv zero_neq_numeral)

lemma step_inner:
  assumes "pc s = Inner_head" and "unat (var_n s) < unat N_scan" and "var_x s = base_vector"
  shows "\<exists>t. step s = Some t \<and> var_x t = base_vector \<and>
    (pc t = Finish \<and> var_n s = 1 \<and> var_k t = var_k s \<or>
     pc t = Outer_head \<and> var_k t = var_k s + dbl 1 \<or>
     pc t = Inner_head \<and> var_n t = var_n s * 10 \<and> var_k t = var_k s \<and> var_h t = var_h s)"
proof -
  from assms(2) have len: "unat (var_n s) \<le> length base_vector"
    by (simp add: N_scan_def base_vector_length)
  have same: "base_vector[0 := dbl 1 / gamma] = base_vector"
    using base_vector_0 by (metis list_update_id)
  from difference_result [OF base_vector_nonempty len, of "var_h s"]
  obtain err where d: "difference (var_h s) (var_x s) (var_n s) = Some (err, base_vector)"
    by (simp add: assms(3) same)
  show ?thesis
    using assms(1,2) d by (simp add: step_def Let_def)
qed

lemma step_inner_exit:
  "pc s = Inner_head \<Longrightarrow> \<not> unat (var_n s) < unat N_scan \<Longrightarrow>
   step s = Some (s\<lparr>var_k := var_k s + dbl 1, pc := Outer_head\<rparr>)"
  by (simp add: step_def)

lemma inner_loop_exit:
  assumes "pc s = Inner_head" and "\<not> unat (var_n s) < unat N_scan" and "var_x s = base_vector"
  shows "\<exists>t. run s = run t \<and> var_x t = base_vector \<and> prefix (stdout s) (stdout t) \<and>
    pc t = Outer_head \<and> var_k t = var_k s + dbl 1"
proof -
  let ?t = "s\<lparr>var_k := var_k s + dbl 1, pc := Outer_head\<rparr>"
  have "run s = run ?t"
    using assms(1) step_inner_exit [OF assms(1,2)] by (intro run_step) simp_all
  then show ?thesis
    using assms(3) by (intro exI [of _ ?t]) simp
qed

lemma inner_loop_next:
  assumes nxt: "\<And>s'. pc s' = Inner_head \<Longrightarrow> var_n s' = n * 10 \<Longrightarrow> var_x s' = base_vector \<Longrightarrow>
      \<exists>t. run s' = run t \<and> var_x t = base_vector \<and> prefix (stdout s') (stdout t) \<and>
        pc t = Outer_head \<and> var_k t = var_k s' + dbl 1"
    and "pc s = Inner_head" and "var_n s = n" and "var_x s = base_vector"
    and "unat n < unat N_scan" and "n \<noteq> 1"
  shows "\<exists>t. run s = run t \<and> var_x t = base_vector \<and> prefix (stdout s) (stdout t) \<and>
    pc t = Outer_head \<and> var_k t = var_k s + dbl 1"
proof -
  from assms(3,5) have lt: "unat (var_n s) < unat N_scan"
    by simp
  from step_inner [OF assms(2) lt assms(4)] assms(3,6) obtain u where
    u: "step s = Some u" and xu: "var_x u = base_vector" and
    cases: "pc u = Outer_head \<and> var_k u = var_k s + dbl 1 \<or>
     pc u = Inner_head \<and> var_n u = var_n s * 10 \<and> var_k u = var_k s \<and> var_h u = var_h s"
    by auto
  have ru: "run s = run u"
    using assms(2) u by (intro run_step) simp_all
  have pu: "prefix (stdout s) (stdout u)"
    using u by (rule step_appends)
  from cases show ?thesis
  proof (elim disjE conjE)
    assume "pc u = Outer_head" "var_k u = var_k s + dbl 1"
    with ru xu pu show ?thesis by blast
  next
    assume a: "pc u = Inner_head" "var_n u = var_n s * 10" "var_k u = var_k s"
    from nxt [OF a(1) _ xu] a(2) assms(3) obtain t where
      "run u = run t" "var_x t = base_vector" "prefix (stdout u) (stdout t)"
      "pc t = Outer_head" "var_k t = var_k u + dbl 1"
      by auto
    with ru pu a(3) show ?thesis
      by (metis prefix_order.trans)
  qed
qed

lemma inner_loop_rest:
  assumes "pc s = Inner_head" and "var_n s = 10" and "var_x s = base_vector"
  shows "\<exists>t. run s = run t \<and> var_x t = base_vector \<and> prefix (stdout s) (stdout t) \<and>
    pc t = Outer_head \<and> var_k t = var_k s + dbl 1"
proof -
  have e4: "\<exists>t. run s = run t \<and> var_x t = base_vector \<and> prefix (stdout s) (stdout t) \<and>
      pc t = Outer_head \<and> var_k t = var_k s + dbl 1"
    if "pc s = Inner_head" "var_n s = 1000 * 10" "var_x s = base_vector" for s
    by (rule inner_loop_exit) (simp_all add: that N_scan_def)
  have e3: "\<exists>t. run s = run t \<and> var_x t = base_vector \<and> prefix (stdout s) (stdout t) \<and>
      pc t = Outer_head \<and> var_k t = var_k s + dbl 1"
    if "pc s = Inner_head" "var_n s = 100 * 10" "var_x s = base_vector" for s
    by (rule inner_loop_next [where n = 1000, OF e4]) (simp_all add: that N_scan_def)
  have e2: "\<exists>t. run s = run t \<and> var_x t = base_vector \<and> prefix (stdout s) (stdout t) \<and>
      pc t = Outer_head \<and> var_k t = var_k s + dbl 1"
    if "pc s = Inner_head" "var_n s = 10 * 10" "var_x s = base_vector" for s
    by (rule inner_loop_next [where n = 100, OF e3]) (simp_all add: that N_scan_def)
  show ?thesis
    by (rule inner_loop_next [where n = 10, OF e2]) (simp_all add: assms N_scan_def)
qed

lemma inner_loop_ends:
  assumes "pc s = Inner_head" and "var_n s = 1" and "var_x s = base_vector"
  shows "\<exists>t. run s = run t \<and> var_x t = base_vector \<and> prefix (stdout s) (stdout t) \<and>
    (pc t = Finish \<and> var_k t = var_k s \<or> pc t = Outer_head \<and> var_k t = var_k s + dbl 1)"
proof -
  from assms(2) have lt: "unat (var_n s) < unat N_scan"
    by (simp add: N_scan_def)
  from step_inner [OF assms(1) lt assms(3)] obtain u where
    u: "step s = Some u" and xu: "var_x u = base_vector" and
    cases: "pc u = Finish \<and> var_n s = 1 \<and> var_k u = var_k s \<or>
     pc u = Outer_head \<and> var_k u = var_k s + dbl 1 \<or>
     pc u = Inner_head \<and> var_n u = var_n s * 10 \<and> var_k u = var_k s \<and> var_h u = var_h s"
    by blast
  have ru: "run s = run u"
    using assms(1) u by (intro run_step) simp_all
  have pu: "prefix (stdout s) (stdout u)"
    using u by (rule step_appends)
  from cases show ?thesis
  proof (elim disjE conjE)
    assume "pc u = Finish" "var_k u = var_k s"
    with ru xu pu show ?thesis by blast
  next
    assume "pc u = Outer_head" "var_k u = var_k s + dbl 1"
    with ru xu pu show ?thesis by blast
  next
    assume a: "pc u = Inner_head" "var_n u = var_n s * 10" "var_k u = var_k s"
    from a(2) assms(2) have "var_n u = 10"
      by simp
    from inner_loop_rest [OF a(1) this xu] obtain t where
      "run u = run t" "var_x t = base_vector" "prefix (stdout u) (stdout t)"
      "pc t = Outer_head" "var_k t = var_k u + dbl 1"
      by auto
    with ru pu a(3) show ?thesis
      by (metis prefix_order.trans)
  qed
qed

lemma dbl_nat: "j \<le> 9007199254740992 \<Longrightarrow> dbl (of_nat j) = Double (Fin (of_nat j))"
  by (simp add: dbl_def fround64_nat)

lemma dbl_0: "dbl 0 = Double (Fin 0)"
  using dbl_nat [of 0] by simp

lemma dbl_1: "dbl 1 = Double (Fin 1)"
  using dbl_nat [of 1] by simp

lemma dbl_10: "dbl 10 = Double (Fin 10)"
  using dbl_nat [of 10] by simp

lemma k_plus_1:
  assumes "j < 9007199254740992"
  shows "Double (Fin (of_nat j)) + dbl 1 = Double (Fin (of_nat (Suc j)))"
proof -
  have "Double (Fin (of_nat j)) + dbl 1 = Double (fround binary64 (of_nat (Suc j)))"
    by (simp add: plus_double_def dbl_1 add.commute)
  also have "fround binary64 (of_nat (Suc j)) = Fin (of_nat (Suc j))"
    using assms by (intro fround64_nat) simp
  finally show ?thesis .
qed

lemma pow_10_neg: "pow (dbl 10) (- Double (Fin (of_nat j))) = Some (dbl (1 / 10 ^ j))"
proof -
  have "\<lfloor>- rat_of_nat j\<rfloor> = - int j"
    by (metis floor_of_int of_int_minus of_int_of_nat_eq)
  then show ?thesis
    by (simp add: pow_def dbl_10 uminus_double_def power_int_minus_divide)
qed

lemma dbl_underflow: "dbl (1 / 10 ^ 324) = Double (Fin 0)"
proof -
  have "round_fin binary64 (1 / 10 ^ 324) = 0"
    by (rule round_fin_tiny) (simp_all add: binary64_def)
  then show ?thesis
    by (simp add: dbl_def fround_def)
qed

lemma deq_zero: "deq (Double (Fin 0)) (dbl 0)"
  by (simp add: deq_def fp_eq_def dbl_0)

lemma step_outer:
  assumes "pc s = Outer_head" and "var_k s = Double (Fin (of_nat j))"
  shows "step s =
    (if deq (dbl (1 / 10 ^ j)) (dbl 0)
     then Some (s\<lparr>var_h := dbl (1 / 10 ^ j), stdout := stdout s @ [line_underflow (var_k s)],
                 pc := Finish\<rparr>)
     else Some (s\<lparr>var_h := dbl (1 / 10 ^ j), var_n := 1, pc := Inner_head\<rparr>))"
  using assms pow_10_neg [of j] by (simp add: step_def)

lemma outer_loop_halts:
  assumes "pc s = Outer_head" and "var_k s = Double (Fin (of_nat j))"
    and "deq (dbl (1 / 10 ^ j)) (dbl 0)"
  shows "run s = Some (s\<lparr>var_h := dbl (1 / 10 ^ j),
    stdout := stdout s @ [line_underflow (var_k s)], pc := Finish\<rparr>)"
proof -
  let ?t = "s\<lparr>var_h := dbl (1 / 10 ^ j), stdout := stdout s @ [line_underflow (var_k s)],
      pc := Finish\<rparr>"
  have "step s = Some ?t"
    using step_outer [OF assms(1,2)] assms(3) by (simp only: if_True)
  then have "run s = run ?t"
    using assms(1) by (intro run_step) simp_all
  also have "\<dots> = Some ?t"
    by (rule run_finish) simp
  finally show ?thesis .
qed

lemma underflow_at_324: "deq (dbl (1 / 10 ^ 324)) (dbl 0)"
  unfolding dbl_underflow by (rule deq_zero)

lemma outer_loop_ends:
  assumes "j \<le> 324" and "pc s = Outer_head" and "var_k s = Double (Fin (of_nat j))"
    and "var_x s = base_vector"
  shows "\<exists>t i. run s = Some t \<and> pc t = Finish \<and> var_k t = Double (Fin (of_nat i)) \<and> i \<le> 324"
  using assms
proof (induction "324 - j" arbitrary: j s)
  case 0
  then have j: "j = 324" by simp
  have "deq (dbl (1 / 10 ^ j)) (dbl 0)"
    unfolding j by (rule underflow_at_324)
  from outer_loop_halts [OF "0.prems"(2,3) this] show ?case
    using "0.prems"(1,3) by auto
next
  case (Suc d)
  then have jlt: "j < 324" by simp
  show ?case
  proof (cases "deq (dbl (1 / 10 ^ j)) (dbl 0)")
    case True
    from outer_loop_halts [OF Suc.prems(2,3) this] show ?thesis
      using Suc.prems(1,3) by auto
  next
    case False
    let ?u = "s\<lparr>var_h := dbl (1 / 10 ^ j), var_n := 1, pc := Inner_head\<rparr>"
    have "step s = Some ?u"
      using step_outer [OF Suc.prems(2,3)] False by (simp only: if_False)
    then have su: "run s = run ?u"
      using Suc.prems(2) by (intro run_step) simp_all
    have "pc ?u = Inner_head" "var_n ?u = 1" "var_x ?u = base_vector"
      using Suc.prems(4) by simp_all
    from inner_loop_ends [OF this] obtain t where
      ut: "run ?u = run t" and xt: "var_x t = base_vector" and
      cases: "pc t = Finish \<and> var_k t = var_k ?u \<or>
        pc t = Outer_head \<and> var_k t = var_k ?u + dbl 1"
      by blast
    from cases show ?thesis
    proof (elim disjE conjE)
      assume "pc t = Finish" "var_k t = var_k ?u"
      then have "run t = Some t" "var_k t = Double (Fin (of_nat j))"
        using Suc.prems(3) by (simp_all add: run_finish)
      with su ut Suc.prems(1) \<open>pc t = Finish\<close> show ?thesis
        by (intro exI [of _ t] exI [of _ j]) simp
    next
      assume a: "pc t = Outer_head" "var_k t = var_k ?u + dbl 1"
      have "var_k t = Double (Fin (of_nat (Suc j)))"
        using a(2) Suc.prems(3) jlt by (simp add: k_plus_1)
      moreover have "d = 324 - Suc j" "Suc j \<le> 324"
        using Suc.hyps(2) jlt by simp_all
      ultimately obtain t' i where
        "run t = Some t'" "pc t' = Finish" "var_k t' = Double (Fin (of_nat i))" "i \<le> 324"
        using Suc.hyps(1) [of "Suc j" t] a(1) xt by blast
      with su ut show ?thesis
        by (intro exI [of _ t'] exI [of _ i]) simp
    qed
  qed
qed

lemma start_state: "pc (start x) = Outer_head" "var_k (start x) = Double (Fin (of_nat 0))"
  "var_x (start x) = x" "stdout (start x) = []"
  by (simp_all add: start_def dbl_0)

lemma scan_ends:
  "\<exists>t i. scan stack = Some t \<and> pc t = Finish \<and> var_k t = Double (Fin (of_nat i)) \<and> i \<le> 324"
  unfolding scan_run
  by (rule outer_loop_ends [of 0]) (simp_all add: start_state)

lemma take_1_update: "x \<noteq> [] \<Longrightarrow> take (Suc 0) (x[0 := v]) = [v]"
  by (cases x) simp_all

lemma difference_n1:
  assumes "x \<noteq> []"
  shows "difference h x 1 =
    Some (((0 + (dbl 1 + h) / gamma * ((dbl 1 + h) / gamma))
           - (0 + dbl 1 / gamma * (dbl 1 / gamma))) * (gamma * gamma),
          x[0 := dbl 1 / gamma])"
proof -
  from assms have "unat (1 :: 32 word) \<le> length x"
    by (cases x) simp_all
  from difference_result [OF assms this] show ?thesis
    using assms by (simp add: take_1_update)
qed

lemma same_base_vector: "base_vector[0 := dbl 1 / gamma] = base_vector"
  using base_vector_0 by (metis list_update_id)

lemma difference_base_n1:
  "difference h base_vector 1 =
    Some (((0 + (dbl 1 + h) / gamma * ((dbl 1 + h) / gamma))
           - (0 + dbl 1 / gamma * (dbl 1 / gamma))) * (gamma * gamma),
          base_vector)"
  using difference_n1 [OF base_vector_nonempty] by (simp add: same_base_vector)

lemma first_difference:
  "difference (dbl 1) base_vector 1 =
     Some (Double (Fin (6755399441055745 / 2251799813685248)), base_vector)"
  by (simp add: difference_base_n1 dbl_eval)

lemma first_deviation:
  "Double (Fin (6755399441055745 / 2251799813685248)) / dbl 1 - dbl 2 =
     Double (Fin (2251799813685249 / 2251799813685248))"
  by (simp add: dbl_eval)

lemma first_derivative:
  "Double (Fin (6755399441055745 / 2251799813685248)) / dbl 1 =
     Double (Fin (6755399441055745 / 2251799813685248))"
  by (simp add: dbl_eval)

lemma first_nonzero: "\<not> deq (Double (Fin (6755399441055745 / 2251799813685248))) (dbl 0)"
  by (simp add: dbl_eval)

lemma first_line:
  "line_err (dbl 0) 1 (Double (Fin (2251799813685249 / 2251799813685248))) =
     ''k: 0 n: 1 err 1.000000''"
  unfolding line_err_def printf_f_def printf_d_def
  by (simp add: dbl_eval) (simp add: printf_eval)

lemma second_step:
  "step \<lparr>pc = Inner_head, var_k = dbl 0, var_h = dbl 1, var_n = 1, var_x = base_vector,
      stdout = []\<rparr> =
   Some \<lparr>pc = Inner_head, var_k = dbl 0, var_h = dbl 1, var_n = 10, var_x = base_vector,
      stdout = [''k: 0 n: 1 err 1.000000'']\<rparr>"
  by (simp add: step_def N_scan_def first_difference first_nonzero first_deviation first_line)

lemma scan_first_line: "\<exists>s rest. scan stack = Some s \<and> stdout s = ''k: 0 n: 1 err 1.000000'' # rest"
proof -
  let ?s1 = "\<lparr>pc = Inner_head, var_k = dbl 0, var_h = dbl 1, var_n = 1, var_x = base_vector,
      stdout = []\<rparr>"
  let ?s2 = "\<lparr>pc = Inner_head, var_k = dbl 0, var_h = dbl 1, var_n = 10, var_x = base_vector,
      stdout = [''k: 0 n: 1 err 1.000000'']\<rparr>"
  from scan_ends [of stack] obtain t where t: "scan stack = Some t"
    by blast
  have "scan stack = run (start base_vector)"
    by (rule scan_run)
  also have "\<dots> = run ?s1"
    by (rule run_step [OF _ step_start]) (simp add: start_def)
  also have "\<dots> = run ?s2"
    by (rule run_step [OF _ second_step]) simp
  finally have "run ?s2 = Some t"
    using t by simp
  from run_appends [OF this] have "prefix [''k: 0 n: 1 err 1.000000''] (stdout t)"
    by simp
  then obtain rest where "stdout t = ''k: 0 n: 1 err 1.000000'' # rest"
    by (auto simp: prefix_def)
  with t show ?thesis
    by blast
qed

text \<open>Where the scan in fact ends: the first pair whose difference is zero has \<open>k = 16\<close>.\<close>

lemma pairs_nonzero:
  assumes "j < 16"
  shows "\<not> deq (dbl (1 / 10 ^ j)) (dbl 0) \<and>
    (\<exists>err. difference (dbl (1 / 10 ^ j)) base_vector 1 = Some (err, base_vector) \<and>
       \<not> deq err (dbl 0))"
proof -
  from assms have "j = 0 \<or> j = 1 \<or> j = 2 \<or> j = 3 \<or> j = 4 \<or> j = 5 \<or> j = 6 \<or> j = 7 \<or> j = 8 \<or>
      j = 9 \<or> j = 10 \<or> j = 11 \<or> j = 12 \<or> j = 13 \<or> j = 14 \<or> j = 15"
    by arith
  then show ?thesis
    by (elim disjE) (simp_all add: difference_base_n1 dbl_eval)
qed

lemma pair_zero_16:
  "\<not> deq (dbl (1 / 10 ^ 16)) (dbl 0) \<and>
   (\<exists>err. difference (dbl (1 / 10 ^ 16)) base_vector 1 = Some (err, base_vector) \<and>
      deq err (dbl 0))"
  by (simp add: difference_base_n1 dbl_eval)

lemma outer_iteration_continues:
  assumes "pc s = Outer_head" and "var_k s = Double (Fin (of_nat j))"
    and "var_x s = base_vector" and "j < 324"
    and "\<not> deq (dbl (1 / 10 ^ j)) (dbl 0)"
    and "difference (dbl (1 / 10 ^ j)) base_vector 1 = Some (err, base_vector)"
    and "\<not> deq err (dbl 0)"
  shows "\<exists>t. run s = run t \<and> pc t = Outer_head \<and> var_k t = Double (Fin (of_nat (Suc j))) \<and>
    var_x t = base_vector"
proof -
  let ?h = "dbl (1 / 10 ^ j)"
  let ?u = "s\<lparr>var_h := ?h, var_n := 1, pc := Inner_head\<rparr>"
  let ?v = "?u\<lparr>var_x := base_vector,
      stdout := stdout ?u @ [line_err (var_k ?u) (var_n ?u) (err / var_h ?u - dbl 2)],
      var_n := var_n ?u * 10\<rparr>"
  have "step s = Some ?u"
    using step_outer [OF assms(1,2)] assms(5) by (simp only: if_False)
  then have su: "run s = run ?u"
    using assms(1) by (intro run_step) simp_all
  have "difference (var_h ?u) (var_x ?u) (var_n ?u) = Some (err, base_vector)"
    using assms(6) by (simp add: assms(3))
  then have "step ?u = Some ?v"
    using assms(7) by (simp add: step_def N_scan_def)
  then have uv: "run ?u = run ?v"
    by (intro run_step) simp_all
  have "pc ?v = Inner_head" "var_n ?v = 10" "var_x ?v = base_vector"
    by simp_all
  from inner_loop_rest [OF this] obtain t where
    "run ?v = run t" "var_x t = base_vector" "pc t = Outer_head" "var_k t = var_k ?v + dbl 1"
    by blast
  moreover have "var_k ?v + dbl 1 = Double (Fin (of_nat (Suc j)))"
    using assms(2,4) by (simp add: k_plus_1)
  ultimately show ?thesis
    using su uv by (intro exI [of _ t]) simp
qed

lemma outer_iteration_finishes:
  assumes "pc s = Outer_head" and "var_k s = Double (Fin (of_nat j))"
    and "var_x s = base_vector"
    and "\<not> deq (dbl (1 / 10 ^ j)) (dbl 0)"
    and "difference (dbl (1 / 10 ^ j)) base_vector 1 = Some (err, base_vector)"
    and "deq err (dbl 0)"
  shows "run s = Some (s\<lparr>var_h := dbl (1 / 10 ^ j), var_n := 1,
    stdout := stdout s @ [line_difference_underflown (var_k s) 1], pc := Finish\<rparr>)"
proof -
  let ?h = "dbl (1 / 10 ^ j)"
  let ?u = "s\<lparr>var_h := ?h, var_n := 1, pc := Inner_head\<rparr>"
  let ?t = "s\<lparr>var_h := ?h, var_n := 1,
    stdout := stdout s @ [line_difference_underflown (var_k s) 1], pc := Finish\<rparr>"
  have "step s = Some ?u"
    using step_outer [OF assms(1,2)] assms(4) by (simp only: if_False)
  then have su: "run s = run ?u"
    using assms(1) by (intro run_step) simp_all
  have "difference (var_h ?u) (var_x ?u) (var_n ?u) = Some (err, base_vector)"
    using assms(5) by (simp add: assms(3))
  then have "step ?u = Some ?t"
    using assms(3,6) by (simp add: step_def N_scan_def Let_def)
  then have "run ?u = run ?t"
    by (intro run_step) simp_all
  also have "\<dots> = Some ?t"
    by (rule run_finish) simp
  finally show ?thesis
    using su by simp
qed

lemma scan_reaches_k:
  "j \<le> 16 \<Longrightarrow>
   \<exists>t. run (start base_vector) = run t \<and> pc t = Outer_head \<and>
     var_k t = Double (Fin (of_nat j)) \<and> var_x t = base_vector"
proof (induction j)
  case 0
  show ?case
    by (intro exI [of _ "start base_vector"]) (simp add: start_state)
next
  case (Suc j)
  then obtain t where t: "run (start base_vector) = run t" "pc t = Outer_head"
    "var_k t = Double (Fin (of_nat j))" "var_x t = base_vector"
    by auto
  from Suc.prems have "j < 16" "j < 324"
    by simp_all
  from pairs_nonzero [OF this(1)] obtain err where
    "\<not> deq (dbl (1 / 10 ^ j)) (dbl 0)"
    "difference (dbl (1 / 10 ^ j)) base_vector 1 = Some (err, base_vector)" "\<not> deq err (dbl 0)"
    by blast
  from outer_iteration_continues [OF t(2,3,4) \<open>j < 324\<close> this]
  obtain t' where "run t = run t'" "pc t' = Outer_head"
    "var_k t' = Double (Fin (of_nat (Suc j)))" "var_x t' = base_vector"
    by blast
  with t(1) show ?case
    by (intro exI [of _ t']) simp
qed

lemma line_underflown_16:
  "line_difference_underflown (Double (Fin (of_nat 16))) 1 =
     ''difference underflown for k: 16 n: 1''"
  unfolding line_difference_underflown_def printf_f_def printf_d_def
  by (simp add: dbl_eval) (simp add: printf_eval)

lemma scan_ends_at_16:
  "\<exists>s. scan stack = Some s \<and> pc s = Finish \<and> var_k s = dbl 16 \<and>
     last (stdout s) = ''difference underflown for k: 16 n: 1''"
proof -
  from scan_reaches_k [of 16] obtain t where t: "run (start base_vector) = run t"
    "pc t = Outer_head" "var_k t = Double (Fin (of_nat 16))" "var_x t = base_vector"
    by auto
  let ?s = "t\<lparr>var_h := dbl (1 / 10 ^ 16), var_n := 1,
    stdout := stdout t @ [line_difference_underflown (var_k t) 1], pc := Finish\<rparr>"
  from pair_zero_16 obtain err where
    "\<not> deq (dbl (1 / 10 ^ 16)) (dbl 0)"
    "difference (dbl (1 / 10 ^ 16)) base_vector 1 = Some (err, base_vector)" "deq err (dbl 0)"
    by blast
  from outer_iteration_finishes [OF t(2,3,4) this]
  have "run t = Some ?s" .
  with t(1) have "scan stack = Some ?s"
    by (simp add: scan_run)
  moreover have "var_k ?s = dbl 16"
    using dbl_nat [of 16] t(3) by simp
  moreover have "last (stdout ?s) = ''difference underflown for k: 16 n: 1''"
    using line_underflown_16 by (simp add: t(3))
  ultimately show ?thesis
    by (intro exI [of _ ?s]) simp
qed

text \<open>
  C3. The outer loop starts at \<open>k = 0\<close>, adds \<open>1\<close> to \<open>k\<close> each time round, and computes
  \<open>h = 10^-k\<close>. At the top of the loop, when \<open>h\<close> is exactly \<open>0.0\<close> the program prints
  \<^verbatim>\<open>underflow for 10^-k\<close> and the whole procedure ends there. In double precision \<open>h\<close> is
  \<open>0.0\<close> at \<open>k = 324\<close>, so the scan ends, whatever the array held before, with \<open>k\<close> at most
  \<open>324\<close>, within the bound \<open>k \<le> 400\<close>, and the process exits with \<^verbatim>\<open>EXIT_SUCCESS\<close>. (With
  \<open>gamma = 100\<close> the scan is over before \<open>h\<close> gets that small: it ends at \<open>k = 16\<close>, where
  the difference for \<open>n = 1\<close> is zero.)
\<close>

theorem scan_halts:
  "(\<forall>s h. pc s = Outer_head \<and> pow (dbl 10) (- var_k s) = Some h \<and> deq h (dbl 0) \<longrightarrow>
      run s = Some (s\<lparr>var_h := h, stdout := stdout s @ [line_underflow (var_k s)],
                       pc := Finish\<rparr>)) \<and>
   pow (dbl 10) (- dbl 324) = Some (dbl 0) \<and>
   (\<exists>s i. scan stack = Some s \<and> pc s = Finish \<and> var_k s = dbl (of_nat i) \<and> i \<le> 400) \<and>
   (\<exists>out. main_scan stack = Some (EXIT_SUCCESS, out)) \<and>
   (\<exists>s. scan stack = Some s \<and> var_k s = dbl 16 \<and>
      last (stdout s) = ''difference underflown for k: 16 n: 1'')"
proof (intro conjI allI impI)
  fix s :: state and h :: double
  assume a: "pc s = Outer_head \<and> pow (dbl 10) (- var_k s) = Some h \<and> deq h (dbl 0)"
  let ?t = "s\<lparr>var_h := h, stdout := stdout s @ [line_underflow (var_k s)], pc := Finish\<rparr>"
  from a have "step s = Some ?t"
    by (simp add: step_def)
  then have "run s = run ?t"
    using a by (intro run_step) simp_all
  also have "\<dots> = Some ?t"
    by (rule run_finish) simp
  finally show "run s = Some ?t" .
next
  have "dbl 324 = Double (Fin (of_nat 324))"
    using dbl_nat [of 324] by simp
  then show "pow (dbl 10) (- dbl 324) = Some (dbl 0)"
    using pow_10_neg [of 324] by (simp only: dbl_underflow dbl_0)
next
  from scan_ends [of stack] obtain t i where
    t: "scan stack = Some t" "pc t = Finish" "var_k t = Double (Fin (of_nat i))" "i \<le> 324"
    by blast
  then have "var_k t = dbl (of_nat i)"
    by (simp add: dbl_nat)
  with t show "\<exists>s i. scan stack = Some s \<and> pc s = Finish \<and> var_k s = dbl (of_nat i) \<and> i \<le> 400"
    by (intro exI [of _ t] exI [of _ i]) simp
  from t(1) show "\<exists>out. main_scan stack = Some (EXIT_SUCCESS, out)"
    by (simp add: main_scan_def)
next
  from scan_ends_at_16 [of stack]
  show "\<exists>s. scan stack = Some s \<and> var_k s = dbl 16 \<and>
      last (stdout s) = ''difference underflown for k: 16 n: 1''"
    by blast
qed

theorem scan_halts_witness:
  "run \<lparr>pc = Outer_head, var_k = dbl 324, var_h = dbl 0, var_n = 0, var_x = [], stdout = []\<rparr> =
     Some \<lparr>pc = Finish, var_k = dbl 324, var_h = dbl 0, var_n = 0, var_x = [],
       stdout = [''underflow for 10^-324'']\<rparr>"
proof -
  let ?s = "\<lparr>pc = Outer_head, var_k = dbl 324, var_h = dbl 0, var_n = 0, var_x = [],
    stdout = []\<rparr>"
  have k: "dbl 324 = Double (Fin (of_nat 324))"
    using dbl_nat [of 324] by simp
  have p: "pow (dbl 10) (- var_k ?s) = Some (dbl 0)"
    using pow_10_neg [of 324] by (simp only: k dbl_underflow dbl_0 state.simps)
  have z: "deq (dbl 0) (dbl 0)"
    using deq_zero by (simp add: dbl_0)
  have l: "line_underflow (dbl 324) = ''underflow for 10^-324''"
    unfolding line_underflow_def printf_f_def
    by (simp add: dbl_eval) (simp add: printf_eval)
  have "pc ?s = Outer_head \<and> pow (dbl 10) (- var_k ?s) = Some (dbl 0) \<and> deq (dbl 0) (dbl 0)"
    using p z by simp
  with scan_halts [THEN conjunct1, rule_format, of ?s "dbl 0"] show ?thesis
    by (simp add: l)
qed

text \<open>
  C4, as the code has it. With \<open>gamma = 100\<close>, at the first pair \<open>k = 0\<close> (\<open>h = 1\<close>),
  \<open>n = 1\<close>, the difference and so the approximate derivative is \<open>3 + 2^-51\<close>
  (\<open>3.0000000000000004\<close>), one unit in the last place above \<open>3\<close>, and its deviation from
  \<open>2\<close> is \<open>1 + 2^-51\<close>. Printed with six digits that is \<^verbatim>\<open>1.000000\<close>, so the first line
  the program prints is \<^verbatim>\<open>k: 0 n: 1 err 1.000000\<close>.
\<close>

theorem first_pair:
  "pow (dbl 10) (- dbl 0) = Some (dbl 1) \<and>
   difference (dbl 1) base_vector 1 = Some (Double (Fin (3 + 1 / 2 ^ 51)), base_vector) \<and>
   Double (Fin (3 + 1 / 2 ^ 51)) / dbl 1 = Double (Fin (3 + 1 / 2 ^ 51)) \<and>
   Double (Fin (3 + 1 / 2 ^ 51)) / dbl 1 - dbl 2 = Double (Fin (1 + 1 / 2 ^ 51)) \<and>
   printf_f 6 (Double (Fin (1 + 1 / 2 ^ 51))) = ''1.000000'' \<and>
   (\<exists>rest. main_scan stack = Some (EXIT_SUCCESS, ''k: 0 n: 1 err 1.000000'' # rest))"
proof -
  have "printf_f 6 (Double (Fin (1 + 1 / 2 ^ 51))) = ''1.000000''"
    unfolding printf_f_def by (simp add: dbl_eval) (simp add: printf_eval)
  moreover from scan_first_line [of stack]
  have "\<exists>rest. main_scan stack = Some (EXIT_SUCCESS, ''k: 0 n: 1 err 1.000000'' # rest)"
    by (auto simp: main_scan_def)
  ultimately show ?thesis
    using first_difference first_derivative first_deviation by (simp add: pow_10_0)
qed

theorem first_pair_witness:
  "\<exists>rest. main_scan (\<lambda>i. dbl 0) = Some (EXIT_SUCCESS, ''k: 0 n: 1 err 1.000000'' # rest)"
  using first_pair [of "\<lambda>i. dbl 0"] by simp

text \<open>
  The claim as stated fails: the derivative computed at the first pair is not \<open>3.0\<close>
  and its deviation is not \<open>1.0\<close>.
\<close>

theorem first_pair_counterexample:
  "difference (dbl 1) base_vector 1 = Some (Double (Fin (3 + 1 / 2 ^ 51)), base_vector) \<and>
   Double (Fin (3 + 1 / 2 ^ 51)) / dbl 1 \<noteq> dbl 3 \<and>
   Double (Fin (3 + 1 / 2 ^ 51)) / dbl 1 - dbl 2 \<noteq> dbl 1"
proof -
  have "dbl 3 = Double (Fin 3)" "dbl 1 = Double (Fin 1)"
    using dbl_nat [of 3] dbl_nat [of 1] by simp_all
  then show ?thesis
    using first_difference first_derivative first_deviation by simp
qed

section \<open>Facts about Experiment 1\<close>

lemma rng_after_shift:
  "rng_after env (snd (gsl_ran_flat env rng lo hi)) lo hi i = rng_after env rng lo hi (Suc i)"
  by (induction i) simp_all

lemma draw_shift:
  "draw env (snd (gsl_ran_flat env rng lo hi)) lo hi i = draw env rng lo hi (Suc i)"
  by (simp add: draw_def rng_after_shift del: rng_after.simps(2))

lemma init_data_uniform_loop_result:
  assumes "unat i \<le> unat nelem" and "unat nelem \<le> length data" and "unat nelem < 2 ^ 32"
  shows "init_data_uniform_loop conv env data rng nelem a i =
    Some (take (unat i) data @
          map (\<lambda>j. conv (draw env rng (double_of_float (- a)) (double_of_float a) (j - unat i)))
            [unat i..<unat nelem] @
          drop (unat nelem) data,
          rng_after env rng (double_of_float (- a)) (double_of_float a) (unat nelem - unat i))"
  using assms
proof (induction "unat nelem - unat i" arbitrary: i data rng)
  case 0
  then have "unat i = unat nelem"
    by simp
  then show ?case
    by (subst init_data_uniform_loop.simps) simp
next
  case (Suc d)
  let ?lo = "double_of_float (- a)" and ?hi = "double_of_float a"
  let ?v = "conv (fst (gsl_ran_flat env rng ?lo ?hi))"
  let ?rng = "snd (gsl_ran_flat env rng ?lo ?hi)"
  from Suc have lt: "unat i < unat nelem"
    by simp
  with Suc.prems have inx: "unat i < length data" and small: "unat i + 1 < 2 ^ 32"
    by simp_all
  have suc: "unat (i + 1) = Suc (unat i)"
    using small by (simp add: unat_word_ariths)
  have "init_data_uniform_loop conv env data rng nelem a i =
      init_data_uniform_loop conv env (data[unat i := ?v]) ?rng nelem a (i + 1)"
    using lt inx by (subst init_data_uniform_loop.simps) simp
  also have "\<dots> = Some (take (unat (i + 1)) (data[unat i := ?v]) @
      map (\<lambda>j. conv (draw env ?rng ?lo ?hi (j - unat (i + 1)))) [unat (i + 1)..<unat nelem] @
      drop (unat nelem) (data[unat i := ?v]),
      rng_after env ?rng ?lo ?hi (unat nelem - unat (i + 1)))"
    using Suc.hyps(2) Suc.prems lt suc by (intro Suc.hyps(1)) simp_all
  also have "take (unat (i + 1)) (data[unat i := ?v]) = take (unat i) data @ [?v]"
    using inx by (simp add: suc take_Suc_conv_app_nth)
  also have "drop (unat nelem) (data[unat i := ?v]) = drop (unat nelem) data"
    using lt by simp
  also have "rng_after env ?rng ?lo ?hi (unat nelem - unat (i + 1)) =
      rng_after env rng ?lo ?hi (unat nelem - unat i)"
    using lt by (simp only: suc rng_after_shift) (simp add: Suc_diff_Suc)
  also have "map (\<lambda>j. conv (draw env ?rng ?lo ?hi (j - unat (i + 1)))) [unat (i + 1)..<unat nelem] =
      map (\<lambda>j. conv (draw env rng ?lo ?hi (j - unat i))) [unat (i + 1)..<unat nelem]"
    by (rule map_cong) (simp_all add: suc draw_shift Suc_diff_Suc del: rng_after.simps(2))
  also have "(take (unat i) data @ [?v]) @
      map (\<lambda>j. conv (draw env rng ?lo ?hi (j - unat i))) [unat (i + 1)..<unat nelem] @
      drop (unat nelem) data =
    take (unat i) data @
      map (\<lambda>j. conv (draw env rng ?lo ?hi (j - unat i))) [unat i..<unat nelem] @
      drop (unat nelem) data"
    using lt by (simp add: suc upt_conv_Cons draw_def)
  finally show ?case .
qed

lemma init_data_uniform_result:
  assumes "unat nelem \<le> length data" and "unat nelem < 2 ^ 32"
  shows "init_data_uniform conv env data rng nelem a =
    Some (map (\<lambda>j. conv (draw env rng (double_of_float (- a)) (double_of_float a) j))
            [0..<unat nelem] @ drop (unat nelem) data,
          rng_after env rng (double_of_float (- a)) (double_of_float a) (unat nelem))"
  using init_data_uniform_loop_result [of 0 nelem data conv env rng a] assms
  by (simp add: init_data_uniform_def)

lemma flt_1: "flt 1 = Float (Fin 1)"
  using fround32_int [of 1] by (simp add: flt_def)

lemma interval_lo: "double_of_float (- flt 1) = Double (Fin (- 1))"
  using fround64_int [of "- 1"] by (simp add: flt_1 double_of_float_def uminus_float_def)

lemma interval_hi: "double_of_float (flt 1) = Double (Fin 1)"
  using fround64_int [of 1] by (simp add: flt_1 double_of_float_def)

lemma take_map_upt: "m \<le> k \<Longrightarrow> take m (map g [0..<k]) = map g [0..<m]"
  by (simp add: take_map)

lemma main_norm_result:
  "main_norm env stack_f stack =
    (case gsl_rng_alloc env of
       None \<Rightarrow> Some Aborted
     | Some rng0 \<Rightarrow>
         if gettimeofday_status env \<noteq> 0 then Some Aborted
         else
           Some (Returned (EXIT_SUCCESS,
             [printf_f 5 (double_of_float
                (foldl (\<lambda>result x_i. result + x_i * x_i) 0
                   (map (\<lambda>i. float_of_double
                           (draw env (gsl_rng_set env rng0 (gettimeofday_usec env))
                              (Double (Fin (- 1))) (Double (Fin 1)) i))
                      [0..<12]))),
              printf_f 5
                (foldl (\<lambda>result x_i. result + x_i * x_i) 0
                   (map (\<lambda>i. draw env (gsl_rng_set env rng0 (gettimeofday_usec env))
                              (Double (Fin (- 1))) (Double (Fin 1)) (2048 + i))
                      [0..<12]))])))"
proof (cases "gsl_rng_alloc env")
  case None
  then show ?thesis
    by (simp add: main_norm_def get_gsl_rng_def)
next
  case (Some rng0)
  show ?thesis
  proof (cases "gettimeofday_status env = 0")
    case False
    with Some show ?thesis
      by (simp add: main_norm_def get_gsl_rng_def get_seed_from_time_of_day_def)
  next
    case True
    let ?lo = "Double (Fin (- 1))" and ?hi = "Double (Fin 1)"
    define rng where "rng = gsl_rng_set env rng0 (gettimeofday_usec env)"
    define rng1 where "rng1 = rng_after env rng ?lo ?hi 2048"
    define x_f where "x_f = map (\<lambda>j. float_of_double (draw env rng ?lo ?hi j)) [0..<2048]"
    define x where "x = map (\<lambda>j. draw env rng1 ?lo ?hi j) [0..<2048]"
    have g: "get_gsl_rng env = Returned rng"
      using Some True by (simp add: get_gsl_rng_def get_seed_from_time_of_day_def rng_def)
    have i1: "init_data_uniform float_of_double env (map stack_f [0..<unat N_norm]) rng N_norm
        (flt 1) = Some (x_f, rng1)"
      by (subst init_data_uniform_result)
        (simp_all add: N_norm_def interval_lo interval_hi x_f_def rng1_def)
    have i2: "init_data_uniform (\<lambda>v. v) env (map stack [0..<unat N_norm]) rng1 N_norm (flt 1) =
        Some (x, rng_after env rng1 ?lo ?hi 2048)"
      by (subst init_data_uniform_result)
        (simp_all add: N_norm_def interval_lo interval_hi x_def)
    have shift: "rng_after env (rng_after env r ?lo ?hi k) ?lo ?hi j = rng_after env r ?lo ?hi (k + j)"
      for r k j
      by (induction j) simp_all
    have d: "draw env rng1 ?lo ?hi j = draw env rng ?lo ?hi (2048 + j)" for j
      by (simp add: draw_def rng1_def shift)
    have f1: "f x_f n_norm = Some (foldl (\<lambda>result x_i. result + x_i * x_i) 0
        (map (\<lambda>i. float_of_double (draw env rng ?lo ?hi i)) [0..<12]))"
      by (simp add: f_fold n_norm_def x_f_def take_map_upt)
    have f2: "f x n_norm = Some (foldl (\<lambda>result x_i. result + x_i * x_i) 0
        (map (\<lambda>i. draw env rng ?lo ?hi (2048 + i)) [0..<12]))"
      by (simp add: f_fold n_norm_def x_def take_map_upt d)
    show ?thesis
      using Some True
      by (simp add: main_norm_def g i1 i2 f1 f2) (simp add: rng_def)
  qed
qed

text \<open>
  C8, as the code has it. The first program aborts when the allocation of the generator
  fails and also when \<^verbatim>\<open>gettimeofday\<close> fails (\<^verbatim>\<open>assert(status == 0)\<close>, before the generator is
  seeded). Otherwise it exits with \<^verbatim>\<open>EXIT_SUCCESS\<close> after printing exactly two lines, each
  with the format \<^verbatim>\<open>%.5f\<close>: first the single-precision result of \<open>f\<close>, then the
  double-precision one, each over \<open>n = 12\<close> components. The single-precision data are the
  first draws of \<^verbatim>\<open>gsl_ran_flat(rng, -1, 1)\<close>, converted to \<^verbatim>\<open>float\<close>; the double-precision
  data are the draws from the 2048th on.
\<close>

theorem main_norm_outcome:
  "main_norm env stack_f stack =
    (case gsl_rng_alloc env of
       None \<Rightarrow> Some Aborted
     | Some rng0 \<Rightarrow>
         if gettimeofday_status env \<noteq> 0 then Some Aborted
         else
           Some (Returned (EXIT_SUCCESS,
             [printf_f 5 (double_of_float
                (foldl (\<lambda>result x_i. result + x_i * x_i) 0
                   (map (\<lambda>i. float_of_double
                           (draw env (gsl_rng_set env rng0 (gettimeofday_usec env))
                              (Double (Fin (- 1))) (Double (Fin 1)) i))
                      [0..<12]))),
              printf_f 5
                (foldl (\<lambda>result x_i. result + x_i * x_i) 0
                   (map (\<lambda>i. draw env (gsl_rng_set env rng0 (gettimeofday_usec env))
                              (Double (Fin (- 1))) (Double (Fin 1)) (2048 + i))
                      [0..<12]))])))"
  by (rule main_norm_result)

theorem main_norm_outcome_witness:
  "main_norm
     \<lparr>gettimeofday_status = 0, gettimeofday_usec = 5, gsl_rng_alloc = Some (0 :: nat),
      gsl_rng_set = (\<lambda>rng seed. unat seed),
      gsl_ran_flat = (\<lambda>rng lo hi. (dbl (1 / 2), Suc rng))\<rparr>
     (\<lambda>i. flt 0) (\<lambda>i. dbl 0) =
   Some (Returned (EXIT_SUCCESS, [''3.00000'', ''3.00000'']))"
proof -
  let ?env = "\<lparr>gettimeofday_status = 0, gettimeofday_usec = 5, gsl_rng_alloc = Some (0 :: nat),
      gsl_rng_set = (\<lambda>rng seed. unat seed),
      gsl_ran_flat = (\<lambda>rng lo hi. (dbl (1 / 2), Suc rng))\<rparr>"
  have d: "draw ?env rng lo hi i = Double (Fin (1 / 2))" for rng lo hi i
    by (simp add: draw_def dbl_eval)
  have c: "float_of_double (Double (Fin (1 / 2))) = Float (Fin (1 / 2))"
    by (simp add: float_of_double_def fp_eval)
  have s1: "foldl (\<lambda>result x_i. result + x_i * x_i) 0
      (map (\<lambda>i. Float (Fin (1 / 2))) [0..<12]) = Float (Fin 3)"
    by (simp add: map_replicate_const replicate_numeral_eval float_ops fp_eval)
  have s2: "foldl (\<lambda>result x_i. result + x_i * x_i) 0
      (map (\<lambda>i. Double (Fin (1 / 2))) [0..<12]) = Double (Fin 3)"
    by (simp add: map_replicate_const replicate_numeral_eval double_ops fp_eval)
  have p: "printf_f 5 (Double (Fin 3)) = ''3.00000''"
    unfolding printf_f_def by (simp add: dbl_eval) (simp add: printf_eval)
  have e: "double_of_float (Float (Fin 3)) = Double (Fin 3)"
    by (simp add: double_of_float_def fp_eval)
  show ?thesis
    using main_norm_outcome [of ?env "\<lambda>i. flt 0" "\<lambda>i. dbl 0"]
    by (simp add: d c s1 s2 p e)
qed

text \<open>
  The claim as stated fails: with the generator allocated and \<^verbatim>\<open>gettimeofday\<close> returning
  \<open>-1\<close>, the process aborts.
\<close>

theorem main_norm_counterexample:
  "gsl_rng_alloc
     \<lparr>gettimeofday_status = - 1, gettimeofday_usec = 5, gsl_rng_alloc = Some (0 :: nat),
      gsl_rng_set = (\<lambda>rng seed. unat seed),
      gsl_ran_flat = (\<lambda>rng lo hi. (dbl (1 / 2), Suc rng))\<rparr> = Some 0 \<and>
   main_norm
     \<lparr>gettimeofday_status = - 1, gettimeofday_usec = 5, gsl_rng_alloc = Some (0 :: nat),
      gsl_rng_set = (\<lambda>rng seed. unat seed),
      gsl_ran_flat = (\<lambda>rng lo hi. (dbl (1 / 2), Suc rng))\<rparr>
     (\<lambda>i. flt 0) (\<lambda>i. dbl 0) = Some Aborted"
  by (simp add: main_norm_result)

section \<open>Rounding errors of the prescaled norm\<close>

text \<open>
  A rounding to nearest of a value in the normal range of a format changes it by at most
  the fraction \<open>2 powi (- prec F)\<close> of its magnitude.
\<close>

lemma rne_error: "\<bar>of_int (rne t) - t\<bar> \<le> 1 / 2"
proof -
  have "of_int \<lfloor>t\<rfloor> \<le> t" "t < of_int \<lfloor>t\<rfloor> + 1"
    using floor_correct [of t] by simp_all
  then show ?thesis
    by (auto simp: rne_def Let_def)
qed

lemma round_fin_error:
  assumes "2 powi emin F \<le> \<bar>q\<bar>"
  shows "\<bar>round_fin F q - q\<bar> \<le> \<bar>q\<bar> * 2 powi (- prec F)"
proof -
  define a where "a = \<bar>q\<bar>"
  define e where "e = ilog2 a"
  define w where "w = e - prec F + 1"
  define t where "t = a / 2 powi w"
  have apos: "0 < a"
  proof -
    have "(0::rat) < 2 powi emin F" by simp
    with assms show ?thesis unfolding a_def by linarith
  qed
  then have q0: "q \<noteq> 0"
    unfolding a_def by auto
  from ilog2_bounds [OF apos] have lo: "2 powi e \<le> a" and hi: "a < 2 powi (e + 1)"
    by (simp_all add: e_def)
  have emin: "emin F \<le> e"
  proof (rule ccontr)
    assume "\<not> emin F \<le> e"
    then have "e + 1 \<le> emin F" by simp
    then have "(2::rat) powi (e + 1) \<le> 2 powi emin F"
      by (rule power_int_increasing) simp
    with hi assms show False
      by (simp add: a_def)
  qed
  have ulp: "ulp_exp F a = w"
    using emin by (simp add: ulp_exp_def w_def e_def max_def)
  have wpos: "(0::rat) < 2 powi w" by simp
  have a_t: "a = t * 2 powi w"
    by (simp add: t_def)
  have r: "round_fin F q = sgn q * (of_int (rne t) * 2 powi w)"
    using q0 ulp by (simp add: round_fin_def a_def [symmetric] t_def)
  have "q = sgn q * a"
    by (simp add: a_def sgn_mult_abs)
  then have q: "q = sgn q * (t * 2 powi w)"
    using a_t by simp
  have "round_fin F q - q = sgn q * (of_int (rne t) * 2 powi w) - sgn q * (t * 2 powi w)"
    using r q by metis
  also have "\<dots> = sgn q * ((of_int (rne t) - t) * 2 powi w)"
    by (simp only: right_diff_distrib left_diff_distrib)
  finally have "\<bar>round_fin F q - q\<bar> = \<bar>sgn q\<bar> * (\<bar>of_int (rne t) - t\<bar> * \<bar>2 powi w\<bar>)"
    by (simp only: abs_mult)
  also have "\<dots> = \<bar>of_int (rne t) - t\<bar> * 2 powi w"
    using q0 by (simp add: abs_sgn_eq)
  also have "\<dots> \<le> 1 / 2 * 2 powi w"
    using rne_error [of t] wpos by (intro mult_right_mono) simp_all
  also have "1 / 2 * (2::rat) powi w = 2 powi e * 2 powi (- prec F)"
  proof -
    have "(2::rat) powi (e + - prec F + 1) = 2 powi (e + - prec F) * 2 powi 1"
      by (rule power_int_add) simp
    moreover have "(2::rat) powi (e + - prec F) = 2 powi e * 2 powi (- prec F)"
      by (rule power_int_add) simp
    moreover have "w = e + - prec F + 1"
      by (simp add: w_def)
    ultimately show ?thesis
      by simp
  qed
  also have "\<dots> \<le> a * 2 powi (- prec F)"
    using lo by (intro mult_right_mono) simp_all
  finally show ?thesis
    by (simp add: a_def)
qed

lemma fround64_normal:
  assumes "q = 0 \<or> 1 / 2 ^ 1022 \<le> \<bar>q\<bar> \<and> \<bar>q\<bar> \<le> 2 ^ 1023"
  shows "\<exists>r. fround binary64 q = Fin r \<and> \<bar>r - q\<bar> \<le> \<bar>q\<bar> / 2 ^ 53"
proof (cases "q = 0")
  case True
  then show ?thesis
    by (simp add: fround_def round_fin_def)
next
  case False
  with assms have lo: "1 / 2 ^ 1022 \<le> \<bar>q\<bar>" and hi: "\<bar>q\<bar> \<le> 2 ^ 1023"
    by simp_all
  define r where "r = round_fin binary64 q"
  have "(2::rat) powi emin binary64 = 1 / 2 ^ 1022"
    by (simp add: binary64_def power_int_minus_divide)
  with lo have "2 powi emin binary64 \<le> \<bar>q\<bar>"
    by simp
  from round_fin_error [OF this] have "\<bar>r - q\<bar> \<le> \<bar>q\<bar> * 2 powi (- prec binary64)"
    by (simp add: r_def)
  moreover have "(2::rat) powi (- prec binary64) = 1 / 2 ^ 53"
    by (simp add: binary64_def power_int_minus_divide)
  ultimately have err: "\<bar>r - q\<bar> \<le> \<bar>q\<bar> / 2 ^ 53"
    by simp
  have "\<bar>r\<bar> \<le> \<bar>q\<bar> + \<bar>r - q\<bar>"
    by linarith
  also have "\<dots> \<le> \<bar>q\<bar> + \<bar>q\<bar> / 2 ^ 53"
    using err by simp
  also have "\<dots> \<le> 2 ^ 1023 + 2 ^ 1023 / 2 ^ 53"
    using hi by (intro add_mono divide_right_mono) simp_all
  also have "\<dots> < (2::rat) ^ 1024"
    by simp
  finally have "\<bar>r\<bar> < 2 powi (emax binary64 + 1)"
    by (simp add: binary64_def)
  then have "fround binary64 q = Fin r"
    by (simp add: fround_def r_def)
  with err show ?thesis
    by blast
qed

lemma u_facts: "(0::rat) < 1 - 1 / 2 ^ 53" "(1::rat) - 1 / 2 ^ 53 \<le> 1" "(1::rat) \<le> 1 + 1 / 2 ^ 53"
  by simp_all

lemma near_nonneg: "near m e v \<Longrightarrow> 0 \<le> e \<Longrightarrow> 0 \<le> v"
proof -
  assume a: "near m e v" "0 \<le> e"
  have "0 \<le> (1 - 1 / 2 ^ 53 :: rat) ^ m * e"
    using a(2) u_facts(1) by (intro mult_nonneg_nonneg zero_le_power) simp_all
  with a(1) show ?thesis
    unfolding near_def by linarith
qed

lemma near_zero: "near m 0 v \<longleftrightarrow> v = 0"
  by (auto simp: near_def)

lemma near_exact: "near 0 e e"
  by (simp add: near_def)

lemma near_mono:
  assumes "near m e v" and "m \<le> k" and "0 \<le> e"
  shows "near k e v"
proof -
  have "(1 - 1 / 2 ^ 53 :: rat) ^ k \<le> (1 - 1 / 2 ^ 53) ^ m"
    using assms(2) u_facts by (intro power_decreasing) simp_all
  then have "(1 - 1 / 2 ^ 53 :: rat) ^ k * e \<le> (1 - 1 / 2 ^ 53) ^ m * e"
    using assms(3) by (rule mult_right_mono)
  moreover have "(1 + 1 / 2 ^ 53 :: rat) ^ m \<le> (1 + 1 / 2 ^ 53) ^ k"
    using assms(2) u_facts by (intro power_increasing) simp_all
  then have "(1 + 1 / 2 ^ 53 :: rat) ^ m * e \<le> (1 + 1 / 2 ^ 53) ^ k * e"
    using assms(3) by (rule mult_right_mono)
  ultimately show ?thesis
    using assms(1) unfolding near_def by linarith
qed

lemma near_add:
  assumes "near m e1 v1" and "near m e2 v2"
  shows "near m (e1 + e2) (v1 + v2)"
  using assms unfolding near_def by (simp add: distrib_left add_mono)

lemma near_mult:
  assumes "near m e1 v1" and "near k e2 v2" and "0 \<le> e1" and "0 \<le> e2"
  shows "near (m + k) (e1 * e2) (v1 * v2)"
proof -
  let ?d = "1 - 1 / 2 ^ 53 :: rat" and ?u = "1 + 1 / 2 ^ 53 :: rat"
  have d: "0 \<le> ?d ^ m * e1" "0 \<le> ?d ^ k * e2"
    using assms(3,4) u_facts(1) by (simp_all add: mult_nonneg_nonneg)
  have v: "0 \<le> v1" "0 \<le> v2"
    using assms near_nonneg by blast+
  have "(?d ^ m * e1) * (?d ^ k * e2) \<le> v1 * v2"
    using assms(1,2) d v unfolding near_def by (intro mult_mono) simp_all
  moreover have "v1 * v2 \<le> (?u ^ m * e1) * (?u ^ k * e2)"
    using assms(1,2) v unfolding near_def by (intro mult_mono) (simp_all add: mult_nonneg_nonneg assms(3,4))
  ultimately show ?thesis
    unfolding near_def by (simp add: power_add mult_ac)
qed

lemma near_round:
  assumes "near m e q" and "0 \<le> e" and "\<bar>r - q\<bar> \<le> \<bar>q\<bar> / 2 ^ 53"
  shows "near (Suc m) e r"
proof -
  let ?d = "1 - 1 / 2 ^ 53 :: rat" and ?u = "1 + 1 / 2 ^ 53 :: rat"
  have q0: "0 \<le> q"
    using assms(1,2) by (rule near_nonneg)
  with assms(3) have "\<bar>r - q\<bar> \<le> q / 2 ^ 53"
    by simp
  then have "q - q / 2 ^ 53 \<le> r" "r \<le> q + q / 2 ^ 53"
    by linarith+
  then have r: "?d * q \<le> r" "r \<le> ?u * q"
    by (simp_all add: left_diff_distrib distrib_right)
  have "?d * (?d ^ m * e) \<le> ?d * q"
    using assms(1) u_facts(1) unfolding near_def by (intro mult_left_mono) simp_all
  then have lower: "?d * (?d ^ m * e) \<le> r"
    using r(1) by (rule order_trans)
  have "?u * q \<le> ?u * (?u ^ m * e)"
    using assms(1) unfolding near_def by (intro mult_left_mono) simp_all
  with r(2) have upper: "r \<le> ?u * (?u ^ m * e)"
    by (rule order_trans)
  show ?thesis
    unfolding near_def power_Suc mult.assoc using lower upper by (rule conjI)
qed

lemma bernoulli_rat:
  fixes x :: rat
  assumes "0 \<le> x" and "x \<le> 1"
  shows "1 - of_nat m * x \<le> (1 - x) ^ m"
proof (induction m)
  case 0
  show ?case
    by simp
next
  case (Suc m)
  have "(1 - x) * (1 - of_nat m * x) = 1 - of_nat (Suc m) * x + of_nat m * (x * x)"
    by (simp add: algebra_simps)
  moreover have "0 \<le> of_nat m * (x * x)"
    using assms by simp
  ultimately have "1 - of_nat (Suc m) * x \<le> (1 - x) * (1 - of_nat m * x)"
    by linarith
  also have "\<dots> \<le> (1 - x) * (1 - x) ^ m"
    using Suc assms by (intro mult_left_mono) simp_all
  finally show ?case
    by simp
qed

lemma shrink_bound:
  assumes "m \<le> 2 ^ 33"
  shows "(1 / 2 :: rat) \<le> (1 - 1 / 2 ^ 53) ^ m"
proof -
  have "(1::rat) - of_nat m * (1 / 2 ^ 53) \<le> (1 - 1 / 2 ^ 53) ^ m"
    by (rule bernoulli_rat) simp_all
  moreover have "(of_nat m :: rat) \<le> of_nat (2 ^ 33)"
    using assms by (simp only: of_nat_le_iff)
  then have "(of_nat m :: rat) * (1 / 2 ^ 53) \<le> 2 ^ 33 * (1 / 2 ^ 53)"
    by (intro mult_right_mono) simp_all
  then have "(of_nat m :: rat) * (1 / 2 ^ 53) \<le> 1 / 2"
    by simp
  ultimately show ?thesis
    by linarith
qed

lemma grow_bound:
  assumes "m \<le> 2 ^ 33"
  shows "(1 + 1 / 2 ^ 53 :: rat) ^ m \<le> 2"
proof -
  let ?d = "1 - 1 / 2 ^ 53 :: rat" and ?u = "1 + 1 / 2 ^ 53 :: rat"
  have "?u ^ m * ?d ^ m = (?u * ?d) ^ m"
    by (simp only: power_mult_distrib)
  also have "\<dots> \<le> 1"
    by (intro power_le_one) simp_all
  finally have le1: "?u ^ m * ?d ^ m \<le> 1" .
  have "?u ^ m * (1 / 2) \<le> ?u ^ m * ?d ^ m"
    using shrink_bound [OF assms] by (intro mult_left_mono) simp_all
  with le1 show ?thesis
    by linarith
qed

lemma near_range:
  assumes "near m e q" and "m \<le> 2 ^ 33" and "0 \<le> e"
  shows "e / 2 \<le> q" and "q \<le> 2 * e"
proof -
  have "1 / 2 * e \<le> (1 - 1 / 2 ^ 53) ^ m * e"
    using shrink_bound [OF assms(2)] assms(3) by (rule mult_right_mono)
  with assms(1) show "e / 2 \<le> q"
    unfolding near_def by linarith
  have "(1 + 1 / 2 ^ 53) ^ m * e \<le> 2 * e"
    using grow_bound [OF assms(2)] assms(3) by (rule mult_right_mono)
  with assms(1) show "q \<le> 2 * e"
    unfolding near_def by linarith
qed

lemma round_near:
  assumes "near m e q" and "m \<le> 2 ^ 33"
    and "e = 0 \<or> 1 / 2 ^ 1021 \<le> e \<and> e \<le> 2 ^ 1022"
  shows "\<exists>r. fround binary64 q = Fin r \<and> near (Suc m) e r"
proof (cases "e = 0")
  case True
  with assms(1) have "q = 0"
    by (simp add: near_zero)
  with True show ?thesis
    by (simp add: fround_def round_fin_def near_zero)
next
  case False
  with assms(3) have e: "1 / 2 ^ 1021 \<le> e" "e \<le> 2 ^ 1022"
    by simp_all
  then have e0: "0 \<le> e"
    by (meson order_trans zero_le_divide_1_iff zero_le_numeral zero_le_power)
  from near_range [OF assms(1,2) e0] have q: "e / 2 \<le> q" "q \<le> 2 * e" .
  have "1 / 2 ^ 1022 \<le> e / 2"
    using e(1) by simp
  then have lo: "1 / 2 ^ 1022 \<le> q"
    using q(1) by (rule order_trans)
  have "2 * e \<le> 2 ^ 1023"
    using e(2) by simp
  with q(2) have hi: "q \<le> 2 ^ 1023"
    by (rule order_trans)
  have "0 \<le> q"
    using assms(1) e0 by (rule near_nonneg)
  then have "\<bar>q\<bar> = q"
    by simp
  with lo hi have "q = 0 \<or> 1 / 2 ^ 1022 \<le> \<bar>q\<bar> \<and> \<bar>q\<bar> \<le> 2 ^ 1023"
    by simp
  from fround64_normal [OF this] obtain r
    where r: "fround binary64 q = Fin r" "\<bar>r - q\<bar> \<le> \<bar>q\<bar> / 2 ^ 53"
    by blast
  from near_round [OF assms(1) e0 r(2)] r(1) show ?thesis
    by blast
qed

lemma round_abs_near:
  assumes "q = 0 \<or> 1 / 2 ^ 1022 \<le> \<bar>q\<bar> \<and> \<bar>q\<bar> \<le> 2 ^ 1023"
  shows "\<exists>r. fround binary64 q = Fin r \<and> near 1 \<bar>q\<bar> \<bar>r\<bar>"
proof -
  from fround64_normal [OF assms] obtain r
    where r: "fround binary64 q = Fin r" "\<bar>r - q\<bar> \<le> \<bar>q\<bar> / 2 ^ 53"
    by blast
  have "\<bar>\<bar>r\<bar> - \<bar>q\<bar>\<bar> \<le> \<bar>r - q\<bar>"
    by (rule abs_triangle_ineq3)
  with r(2) have "\<bar>\<bar>r\<bar> - \<bar>q\<bar>\<bar> \<le> \<bar>\<bar>q\<bar>\<bar> / 2 ^ 53"
    by simp
  from near_round [OF near_exact _ this] have "near (Suc 0) \<bar>q\<bar> \<bar>r\<bar>"
    by simp
  with r(1) show ?thesis
    by auto
qed

lemma square_range:
  fixes e :: rat
  assumes "e = 0 \<or> 1 / 2 ^ 490 \<le> e \<and> e \<le> 2 ^ 490"
  shows "0 \<le> e" and "e * e = 0 \<or> 1 / 2 ^ 980 \<le> e * e \<and> e * e \<le> 2 ^ 980"
proof -
  show e0: "0 \<le> e"
    using assms by (auto intro: order_trans [of 0 "1 / 2 ^ 490" e])
  show "e * e = 0 \<or> 1 / 2 ^ 980 \<le> e * e \<and> e * e \<le> 2 ^ 980"
  proof (cases "e = 0")
    case True
    then show ?thesis
      by simp
  next
    case False
    with assms have e: "1 / 2 ^ 490 \<le> e" "e \<le> 2 ^ 490"
      by simp_all
    have "(1 / 2 ^ 490) * (1 / 2 ^ 490) \<le> e * e"
      using e(1) by (intro mult_mono) simp_all
    moreover have "(1 / 2 ^ 490) * (1 / 2 ^ 490) = (1 / 2 ^ 980 :: rat)"
      by (simp add: power_add [symmetric])
    moreover have "e * e \<le> 2 ^ 490 * 2 ^ 490"
      using e(2) e0 by (intro mult_mono) simp_all
    moreover have "2 ^ 490 * 2 ^ 490 = (2 ^ 980 :: rat)"
      by (simp add: power_add [symmetric])
    ultimately show ?thesis
      by simp
  qed
qed

lemma square_near:
  assumes "near c e \<bar>w\<bar>" and "c \<le> 1"
    and "e = 0 \<or> 1 / 2 ^ 490 \<le> e \<and> e \<le> 2 ^ 490"
  shows "\<exists>s. Double (Fin w) * Double (Fin w) = Double (Fin s) \<and>
           near (Suc (c + c)) (e * e) s"
proof -
  note range = square_range [OF assms(3)]
  have "near (c + c) (e * e) (\<bar>w\<bar> * \<bar>w\<bar>)"
    using assms(1) assms(1) range(1) range(1) by (rule near_mult)
  then have two: "near (c + c) (e * e) (w * w)"
    by simp
  have small: "c + c \<le> 2 ^ 33"
    using assms(2) by simp
  have "e * e = 0 \<or> 1 / 2 ^ 1021 \<le> e * e \<and> e * e \<le> 2 ^ 1022"
  proof (cases "e * e = 0")
    case True
    then show ?thesis
      by blast
  next
    case False
    with range(2) have "1 / 2 ^ 980 \<le> e * e" "e * e \<le> 2 ^ 980"
      by blast+
    moreover have "(1 / 2 ^ 1021 :: rat) \<le> 1 / 2 ^ 980" "(2 ^ 980 :: rat) \<le> 2 ^ 1022"
      by simp_all
    ultimately show ?thesis
      by (meson order_trans)
  qed
  from round_near [OF two small this] obtain s
    where "fround binary64 (w * w) = Fin s" "near (Suc (c + c)) (e * e) s"
    by auto
  then show ?thesis
    by (auto simp: times_double_def)
qed

lemma add_near:
  assumes "near M E acc" and "near c e s" and "c \<le> M" and "M \<le> 2 ^ 33"
    and "0 \<le> E" and "0 \<le> e"
    and "E + e = 0 \<or> 1 / 2 ^ 1021 \<le> E + e \<and> E + e \<le> 2 ^ 1022"
  shows "\<exists>r. Double (Fin acc) + Double (Fin s) = Double (Fin r) \<and> near (Suc M) (E + e) r"
proof -
  have "near M e s"
    using assms(2,3,6) by (rule near_mono)
  with assms(1) have "near M (E + e) (acc + s)"
    by (rule near_add)
  from round_near [OF this assms(4,7)] show ?thesis
    by (auto simp: plus_double_def)
qed

lemma sum_squares_nonneg: "0 \<le> (\<Sum>e\<leftarrow>es. e * e :: rat)"
  by (induction es) simp_all

lemma sum_squares_near:
  assumes "list_all2 (\<lambda>e w. near c e \<bar>w\<bar> \<and> (e = 0 \<or> 1 / 2 ^ 490 \<le> e \<and> e \<le> 2 ^ 490)) es ws"
    and "c \<le> 1" and "near M E acc" and "Suc (c + c) \<le> M" and "M + length es \<le> 2 ^ 33"
    and "E = 0 \<or> 1 / 2 ^ 980 \<le> E" and "E + (\<Sum>e\<leftarrow>es. e * e) \<le> 2 ^ 1012"
  shows "\<exists>r. foldl (\<lambda>result x_i. result + x_i * x_i) (Double (Fin acc))
             (map (\<lambda>w. Double (Fin w)) ws) = Double (Fin r) \<and>
           near (M + length es) (E + (\<Sum>e\<leftarrow>es. e * e)) r"
  using assms
proof (induction es ws arbitrary: M E acc rule: list_all2_induct)
  case Nil
  then show ?case
    by simp
next
  case (Cons e es w ws)
  from Cons.hyps(1) have el: "near c e \<bar>w\<bar>" "e = 0 \<or> 1 / 2 ^ 490 \<le> e \<and> e \<le> 2 ^ 490"
    by simp_all
  note range = square_range [OF el(2)]
  from square_near [OF el(1) Cons.prems(1) el(2)] obtain s
    where s: "Double (Fin w) * Double (Fin w) = Double (Fin s)" "near (Suc (c + c)) (e * e) s"
    by blast
  have E0: "0 \<le> E"
    using Cons.prems(5) by (auto intro: order_trans [of 0 "1 / 2 ^ 980" E])
  have rest: "0 \<le> (\<Sum>e\<leftarrow>es. e * e)"
    by (rule sum_squares_nonneg)
  have up: "E + e * e \<le> 2 ^ 1012"
    using Cons.prems(6) rest by simp
  have low: "E + e * e = 0 \<or> 1 / 2 ^ 980 \<le> E + e * e"
    using Cons.prems(5) range(2) E0 by (cases "E = 0"; cases "e * e = 0") auto
  have "E + e * e = 0 \<or> 1 / 2 ^ 1021 \<le> E + e * e \<and> E + e * e \<le> 2 ^ 1022"
  proof (cases "E + e * e = 0")
    case True
    then show ?thesis
      by blast
  next
    case False
    with low have "1 / 2 ^ 980 \<le> E + e * e"
      by blast
    moreover have "(1 / 2 ^ 1021 :: rat) \<le> 1 / 2 ^ 980" "(2 ^ 1012 :: rat) \<le> 2 ^ 1022"
      by simp_all
    ultimately show ?thesis
      using up by (meson order_trans)
  qed
  from add_near [OF Cons.prems(2) s(2) Cons.prems(3) _ E0 _ this] Cons.prems(4) obtain r
    where r: "Double (Fin acc) + Double (Fin s) = Double (Fin r)" "near (Suc M) (E + e * e) r"
    by auto
  have "\<exists>r'. foldl (\<lambda>result x_i. result + x_i * x_i) (Double (Fin r))
             (map (\<lambda>w. Double (Fin w)) ws) = Double (Fin r') \<and>
           near (Suc M + length es) (E + e * e + (\<Sum>e\<leftarrow>es. e * e)) r'"
    using Cons.prems(1) r(2) _ _ low
  proof (rule Cons.IH)
    show "Suc (c + c) \<le> Suc M"
      using Cons.prems(3) by simp
    show "Suc M + length es \<le> 2 ^ 33"
      using Cons.prems(4) by simp
    show "E + e * e + (\<Sum>e\<leftarrow>es. e * e) \<le> 2 ^ 1012"
      using Cons.prems(6) by (simp add: add.assoc)
  qed
  then show ?case
    by (simp add: s(1) r(1) add.assoc)
qed

lemma sum_squares_le:
  fixes B :: rat
  assumes "\<forall>e\<in>set es. 0 \<le> e \<and> e \<le> B"
  shows "(\<Sum>e\<leftarrow>es. e * e) \<le> of_nat (length es) * (B * B)"
  using assms
proof (induction es)
  case Nil
  show ?case
    by simp
next
  case (Cons e es)
  then have "e * e \<le> B * B"
    by (intro mult_mono) auto
  moreover have "(\<Sum>e\<leftarrow>es. e * e) \<le> of_nat (length es) * (B * B)"
    using Cons by simp
  ultimately show ?case
    by (simp add: distrib_right)
qed

lemma prescale_elements:
  assumes "g \<noteq> 0"
    and "\<forall>v\<in>set t. v = 0 \<or> 1 / 2 ^ 490 \<le> \<bar>v / g\<bar> \<and> \<bar>v / g\<bar> \<le> 2 ^ 490"
  shows "\<exists>ws. map (\<lambda>v. Double (Fin v) / Double (Fin g)) t = map (\<lambda>w. Double (Fin w)) ws \<and>
           list_all2 (\<lambda>e w. near 1 e \<bar>w\<bar> \<and> (e = 0 \<or> 1 / 2 ^ 490 \<le> e \<and> e \<le> 2 ^ 490))
             (map (\<lambda>v. \<bar>v / g\<bar>) t) ws"
  using assms(2)
proof (induction t)
  case Nil
  show ?case
    by simp
next
  case (Cons v t)
  then obtain ws
    where ws: "map (\<lambda>v. Double (Fin v) / Double (Fin g)) t = map (\<lambda>w. Double (Fin w)) ws"
      "list_all2 (\<lambda>e w. near 1 e \<bar>w\<bar> \<and> (e = 0 \<or> 1 / 2 ^ 490 \<le> e \<and> e \<le> 2 ^ 490))
         (map (\<lambda>v. \<bar>v / g\<bar>) t) ws"
    by auto
  from Cons.prems have v: "v = 0 \<or> 1 / 2 ^ 490 \<le> \<bar>v / g\<bar> \<and> \<bar>v / g\<bar> \<le> 2 ^ 490"
    by simp
  then have range: "\<bar>v / g\<bar> = 0 \<or> 1 / 2 ^ 490 \<le> \<bar>v / g\<bar> \<and> \<bar>v / g\<bar> \<le> 2 ^ 490"
    by auto
  have "v / g = 0 \<or> 1 / 2 ^ 1022 \<le> \<bar>v / g\<bar> \<and> \<bar>v / g\<bar> \<le> 2 ^ 1023"
  proof (cases "v = 0")
    case True
    then show ?thesis
      by simp
  next
    case False
    with v have "1 / 2 ^ 490 \<le> \<bar>v / g\<bar>" "\<bar>v / g\<bar> \<le> 2 ^ 490"
      by blast+
    moreover have "(1 / 2 ^ 1022 :: rat) \<le> 1 / 2 ^ 490" "(2 ^ 490 :: rat) \<le> 2 ^ 1023"
      by simp_all
    ultimately show ?thesis
      by (meson order_trans)
  qed
  from round_abs_near [OF this] obtain r
    where r: "fround binary64 (v / g) = Fin r" "near 1 \<bar>v / g\<bar> \<bar>r\<bar>"
    by blast
  have "Double (Fin v) / Double (Fin g) = Double (Fin r)"
    using assms(1) r(1) by (simp add: divide_double_def)
  with ws r(2) range
  have "map (\<lambda>v. Double (Fin v) / Double (Fin g)) (v # t) = map (\<lambda>w. Double (Fin w)) (r # ws) \<and>
        list_all2 (\<lambda>e w. near 1 e \<bar>w\<bar> \<and> (e = 0 \<or> 1 / 2 ^ 490 \<le> e \<and> e \<le> 2 ^ 490))
          (map (\<lambda>v. \<bar>v / g\<bar>) (v # t)) (r # ws)"
    by simp
  then show ?case
    by blast
qed

lemma unscaled_elements:
  assumes "\<forall>v\<in>set t. v = 0 \<or> 1 / 2 ^ 490 \<le> \<bar>v\<bar> \<and> \<bar>v\<bar> \<le> 2 ^ 490"
  shows "list_all2 (\<lambda>e w. near 0 e \<bar>w\<bar> \<and> (e = 0 \<or> 1 / 2 ^ 490 \<le> e \<and> e \<le> 2 ^ 490))
           (map abs t) t"
  using assms by (induction t) (auto simp: near_exact)

lemma sum_rescaled:
  fixes g :: rat
  assumes "g \<noteq> 0"
  shows "(\<Sum>e\<leftarrow>map (\<lambda>v. \<bar>v / g\<bar>) t. e * e) * (g * g) = (\<Sum>v\<leftarrow>t. v * v)"
proof (induction t)
  case Nil
  show ?case
    by simp
next
  case (Cons v t)
  have "\<bar>v / g\<bar> * \<bar>v / g\<bar> * (g * g) = v * v"
    using assms by simp
  with Cons show ?case
    by (simp add: distrib_right)
qed

lemma sum_abs_squares: "(\<Sum>e\<leftarrow>map abs t. e * e) = (\<Sum>v\<leftarrow>t. v * v :: rat)"
  by (induction t) simp_all

lemma sum_squares_low:
  fixes t :: "rat list"
  assumes "\<forall>v\<in>set t. v = 0 \<or> 1 / 2 ^ 490 \<le> \<bar>v\<bar> \<and> \<bar>v\<bar> \<le> 2 ^ 490"
  shows "(\<Sum>v\<leftarrow>t. v * v) = 0 \<or> 1 / 2 ^ 980 \<le> (\<Sum>v\<leftarrow>t. v * v)"
  using assms
proof (induction t)
  case Nil
  show ?case
    by simp
next
  case (Cons v t)
  have rest: "0 \<le> (\<Sum>v\<leftarrow>t. v * v)"
    by (rule sum_squares_nonneg)
  from Cons.prems have "\<bar>v\<bar> = 0 \<or> 1 / 2 ^ 490 \<le> \<bar>v\<bar> \<and> \<bar>v\<bar> \<le> 2 ^ 490"
    by simp
  from square_range(2) [OF this] have v: "v * v = 0 \<or> 1 / 2 ^ 980 \<le> v * v"
    by auto
  from Cons have t: "(\<Sum>v\<leftarrow>t. v * v) = 0 \<or> 1 / 2 ^ 980 \<le> (\<Sum>v\<leftarrow>t. v * v)"
    by simp
  have "0 \<le> v * v"
    by simp
  with v t rest show ?case
    by (cases "v * v = 0") auto
qed

lemma sum_squares_bound:
  fixes t :: "rat list"
  assumes "\<forall>v\<in>set t. v = 0 \<or> 1 / 2 ^ 490 \<le> \<bar>v\<bar> \<and> \<bar>v\<bar> \<le> 2 ^ 490"
    and "length t \<le> 2 ^ 32"
  shows "(\<Sum>v\<leftarrow>t. v * v) \<le> 2 ^ 1012"
proof -
  have "\<forall>e\<in>set (map abs t). 0 \<le> e \<and> e \<le> 2 ^ 490"
    using assms(1) by auto
  from sum_squares_le [OF this, unfolded sum_abs_squares length_map]
  have "(\<Sum>v\<leftarrow>t. v * v) \<le> of_nat (length t) * (2 ^ 490 * 2 ^ 490)" .
  also have "\<dots> \<le> of_nat (2 ^ 32) * (2 ^ 490 * 2 ^ 490)"
    using assms(2) by (intro mult_right_mono) (simp_all only: of_nat_le_iff, simp)
  also have "\<dots> = (2 ^ 1012 :: rat)"
    by (simp add: power_add [symmetric])
  finally show ?thesis .
qed



lemma f_rationals:
  assumes "unat n \<le> length xs"
  shows "f (map h xs) n =
     Some (foldl (\<lambda>result x_i. result + x_i * x_i) (Double (Fin 0)) (map h (take (unat n) xs)))"
  using assms by (simp add: f_fold take_map zero_double_def)

lemma unscaled_near:
  fixes t :: "rat list"
  assumes "\<forall>v\<in>set t. v = 0 \<or> 1 / 2 ^ 490 \<le> \<bar>v\<bar> \<and> \<bar>v\<bar> \<le> 2 ^ 490"
    and "length t \<le> 2 ^ 32"
  shows "\<exists>b. foldl (\<lambda>result x_i. result + x_i * x_i) (Double (Fin 0))
             (map (\<lambda>v. Double (Fin v)) t) = Double (Fin b) \<and>
           near (length t + 1) (\<Sum>v\<leftarrow>t. v * v) b"
proof -
  have "\<exists>r. foldl (\<lambda>result x_i. result + x_i * x_i) (Double (Fin 0))
             (map (\<lambda>w. Double (Fin w)) t) = Double (Fin r) \<and>
           near (1 + length (map abs t)) (0 + (\<Sum>e\<leftarrow>map abs t. e * e)) r"
    using unscaled_elements [OF assms(1)]
  proof (rule sum_squares_near)
    show "near 1 0 0"
      by (simp add: near_zero)
    show "1 + length (map abs t) \<le> 2 ^ 33"
      using assms(2) by simp
    show "0 + (\<Sum>e\<leftarrow>map abs t. e * e) \<le> 2 ^ 1012"
      using sum_squares_bound [OF assms] by (simp only: sum_abs_squares add_0_left)
  qed simp_all
  then obtain r
    where r: "foldl (\<lambda>result x_i. result + x_i * x_i) (Double (Fin 0))
                (map (\<lambda>w. Double (Fin w)) t) = Double (Fin r)"
      "near (1 + length t) (\<Sum>v\<leftarrow>t. v * v) r"
    by (auto simp only: sum_abs_squares add_0_left length_map)
  have "near (length t + 1) (\<Sum>v\<leftarrow>t. v * v) r"
    using r(2) by (rule near_mono) (simp_all add: sum_squares_nonneg)
  with r(1) show ?thesis
    by blast
qed

lemma prescaled_near:
  fixes t :: "rat list"
  assumes "\<forall>v\<in>set t. v = 0 \<or> 1 / 2 ^ 490 \<le> \<bar>v\<bar> \<and> \<bar>v\<bar> \<le> 2 ^ 490"
    and "\<forall>v\<in>set t. v = 0 \<or> 1 / 2 ^ 490 \<le> \<bar>v / g\<bar> \<and> \<bar>v / g\<bar> \<le> 2 ^ 490"
    and "length t \<le> 2 ^ 32"
    and "1 / 2 ^ 490 \<le> \<bar>g\<bar>" and "\<bar>g\<bar> \<le> 2 ^ 490"
  shows "\<exists>a. foldl (\<lambda>result x_i. result + x_i * x_i) (Double (Fin 0))
             (map (\<lambda>v. Double (Fin v) / Double (Fin g)) t) * (Double (Fin g) * Double (Fin g)) =
             Double (Fin a) \<and>
           near (length t + 5) (\<Sum>v\<leftarrow>t. v * v) a"
proof -
  let ?es = "map (\<lambda>v. \<bar>v / g\<bar>) t"
  let ?S = "\<Sum>v\<leftarrow>t. v * v"
  have g0: "g \<noteq> 0"
    using assms(4) by auto
  from prescale_elements [OF g0 assms(2)] obtain ws
    where ws: "map (\<lambda>v. Double (Fin v) / Double (Fin g)) t = map (\<lambda>w. Double (Fin w)) ws"
      "list_all2 (\<lambda>e w. near 1 e \<bar>w\<bar> \<and> (e = 0 \<or> 1 / 2 ^ 490 \<le> e \<and> e \<le> 2 ^ 490)) ?es ws"
    by blast
  have es: "\<forall>e\<in>set ?es. 0 \<le> e \<and> e \<le> 2 ^ 490"
    using assms(2) by auto
  have "(\<Sum>e\<leftarrow>?es. e * e) \<le> of_nat (length ?es) * (2 ^ 490 * 2 ^ 490)"
    using es by (rule sum_squares_le)
  also have "\<dots> \<le> of_nat (2 ^ 32) * (2 ^ 490 * 2 ^ 490)"
    using assms(3) by (intro mult_right_mono) (simp_all only: of_nat_le_iff length_map, simp)
  also have "\<dots> = (2 ^ 1012 :: rat)"
    by (simp add: power_add [symmetric])
  finally have bound: "(\<Sum>e\<leftarrow>?es. e * e) \<le> 2 ^ 1012" .
  have "\<exists>r. foldl (\<lambda>result x_i. result + x_i * x_i) (Double (Fin 0))
             (map (\<lambda>w. Double (Fin w)) ws) = Double (Fin r) \<and>
           near (3 + length ?es) (0 + (\<Sum>e\<leftarrow>?es. e * e)) r"
    using ws(2)
  proof (rule sum_squares_near)
    show "near 3 0 0"
      by (simp add: near_zero)
    show "3 + length ?es \<le> 2 ^ 33"
      using assms(3) by simp
    show "0 + (\<Sum>e\<leftarrow>?es. e * e) \<le> 2 ^ 1012"
      using bound by (simp only: add_0_left)
  qed simp_all
  then obtain r
    where r: "foldl (\<lambda>result x_i. result + x_i * x_i) (Double (Fin 0))
                (map (\<lambda>w. Double (Fin w)) ws) = Double (Fin r)"
      "near (3 + length t) (\<Sum>e\<leftarrow>?es. e * e) r"
    by (auto simp only: add_0_left length_map)
  have grange: "\<bar>g\<bar> = 0 \<or> 1 / 2 ^ 490 \<le> \<bar>g\<bar> \<and> \<bar>g\<bar> \<le> 2 ^ 490"
    using assms(4,5) by simp
  from square_near [OF near_exact _ this] obtain G
    where G: "Double (Fin g) * Double (Fin g) = Double (Fin G)" "near 1 (\<bar>g\<bar> * \<bar>g\<bar>) G"
    by auto
  have "near (3 + length t + 1) ((\<Sum>e\<leftarrow>?es. e * e) * (\<bar>g\<bar> * \<bar>g\<bar>)) (r * G)"
    using r(2) G(2) sum_squares_nonneg by (rule near_mult) simp
  then have "near (3 + length t + 1) ?S (r * G)"
    using sum_rescaled [OF g0, of t] by simp
  moreover have "3 + length t + 1 \<le> 2 ^ 33"
    using assms(3) by simp
  moreover have "?S = 0 \<or> 1 / 2 ^ 1021 \<le> ?S \<and> ?S \<le> 2 ^ 1022"
  proof (cases "?S = 0")
    case True
    then show ?thesis
      by blast
  next
    case False
    with sum_squares_low [OF assms(1)] have "1 / 2 ^ 980 \<le> ?S"
      by blast
    moreover have "?S \<le> 2 ^ 1012"
      using assms(1,3) by (rule sum_squares_bound)
    moreover have "(1 / 2 ^ 1021 :: rat) \<le> 1 / 2 ^ 980" "(2 ^ 1012 :: rat) \<le> 2 ^ 1022"
      by simp_all
    ultimately show ?thesis
      by (meson order_trans)
  qed
  ultimately obtain a where a: "fround binary64 (r * G) = Fin a" "near (Suc (3 + length t + 1)) ?S a"
    using round_near by blast
  have "foldl (\<lambda>result x_i. result + x_i * x_i) (Double (Fin 0))
          (map (\<lambda>v. Double (Fin v) / Double (Fin g)) t) * (Double (Fin g) * Double (Fin g)) =
        Double (Fin a)"
    unfolding ws(1) r(1) G(1) by (simp add: a(1) times_double_def)
  with a(2) show ?thesis
    by (auto simp: add.commute)
qed

lemma round_fin_pow2:
  assumes "emin F \<le> k" and "1 \<le> prec F"
  shows "round_fin F (2 powi k) = 2 powi k"
proof -
  have pos: "(0::rat) < 2 powi k"
    by simp
  have "ilog2 (2 powi k) = k"
    using pos by (rule ilog2_unique) (simp_all add: power_int_strict_increasing)
  then have ulp: "ulp_exp F \<bar>2 powi k\<bar> = k - (prec F - 1)"
    using assms(1) by (simp add: ulp_exp_def)
  have "(2::rat) powi k = 2 powi ((prec F - 1) + (k - (prec F - 1)))"
    by simp
  also have "\<dots> = 2 powi (prec F - 1) * 2 powi (k - (prec F - 1))"
    by (rule power_int_add) simp
  also have "(2::rat) powi (prec F - 1) = of_int (2 ^ nat (prec F - 1))"
    using assms(2) by (simp add: power_int_def)
  finally have "\<bar>(2::rat) powi k\<bar> = of_int (2 ^ nat (prec F - 1)) * 2 powi ulp_exp F \<bar>2 powi k\<bar>"
    unfolding ulp by simp
  then show ?thesis
    by (rule round_fin_exact)
qed

lemma fround64_pow2:
  assumes "- 1022 \<le> k" and "k \<le> 1023"
  shows "fround binary64 (2 powi k) = Fin (2 powi k)"
proof -
  have "round_fin binary64 (2 powi k) = 2 powi k"
    using assms(1) by (intro round_fin_pow2) (simp_all add: binary64_def)
  moreover have "(2::rat) powi k < 2 powi 1024"
    using assms(2) by (intro power_int_strict_increasing) simp_all
  ultimately show ?thesis
    by (simp add: fround_def binary64_def)
qed

lemma fround64_pow2_overflow:
  assumes "1024 \<le> k"
  shows "fround binary64 (2 powi k) = Inf False"
proof -
  have "round_fin binary64 (2 powi k) = 2 powi k"
    using assms by (intro round_fin_pow2) (simp_all add: binary64_def)
  moreover have "(2::rat) powi 1024 \<le> 2 powi k"
    using assms by (intro power_int_increasing) simp_all
  ultimately show ?thesis
    by (simp add: fround_def binary64_def not_less)
qed

text \<open>
  C6, as the code has it. Take a buffer of finite values \<open>xs\<close>, a length \<open>n\<close> within it and
  a scale \<open>g\<close>, such that \<open>g\<close>, every nonzero component among the first \<open>n\<close> and its quotient
  by \<open>g\<close> have a magnitude between \<open>1 / 2 ^ 490\<close> and \<open>2 ^ 490\<close>. Then the prescaled evaluation,
  \<open>f\<close> of the components divided by \<open>g\<close>, multiplied by \<open>g * g\<close> as in
  \<^verbatim>\<open>err *= gamma*gamma\<close>, and the plain evaluation \<open>f xs n\<close> are both finite, and each is the
  exact sum of the squares of the first \<open>n\<close> components up to rounding: the prescaled one
  within the factors \<open>(1 - 1 / 2 ^ 53) ^ (n + 5)\<close> and \<open>(1 + 1 / 2 ^ 53) ^ (n + 5)\<close>, the plain one within
  \<open>(1 - 1 / 2 ^ 53) ^ (n + 1)\<close> and \<open>(1 + 1 / 2 ^ 53) ^ (n + 1)\<close>.
\<close>

theorem prescaling_up_to_rounding:
  fixes xs :: "rat list" and g :: rat and n :: "32 word"
  assumes "unat n \<le> length xs"
    and "1 / 2 ^ 490 \<le> \<bar>g\<bar>" and "\<bar>g\<bar> \<le> 2 ^ 490"
    and "\<forall>v\<in>set (take (unat n) xs). v = 0 \<or>
           1 / 2 ^ 490 \<le> \<bar>v\<bar> \<and> \<bar>v\<bar> \<le> 2 ^ 490 \<and>
           1 / 2 ^ 490 \<le> \<bar>v / g\<bar> \<and> \<bar>v / g\<bar> \<le> 2 ^ 490"
  shows "\<exists>a b.
           map_option (\<lambda>err. err * (Double (Fin g) * Double (Fin g)))
             (f (map (\<lambda>v. Double (Fin v) / Double (Fin g)) xs) n) = Some (Double (Fin a)) \<and>
           f (map (\<lambda>v. Double (Fin v)) xs) n = Some (Double (Fin b)) \<and>
           near (unat n + 5) (\<Sum>v\<leftarrow>take (unat n) xs. v * v) a \<and>
           near (unat n + 1) (\<Sum>v\<leftarrow>take (unat n) xs. v * v) b"
proof -
  let ?t = "take (unat n) xs"
  have len: "length ?t = unat n"
    using assms(1) by simp
  have "unat n < 2 ^ 32"
    using unsigned_less [of n, where 'a = nat] by simp
  then have small: "length ?t \<le> 2 ^ 32"
    using len by simp
  have plain: "\<forall>v\<in>set ?t. v = 0 \<or> 1 / 2 ^ 490 \<le> \<bar>v\<bar> \<and> \<bar>v\<bar> \<le> 2 ^ 490"
    using assms(4) by blast
  have scaled: "\<forall>v\<in>set ?t. v = 0 \<or> 1 / 2 ^ 490 \<le> \<bar>v / g\<bar> \<and> \<bar>v / g\<bar> \<le> 2 ^ 490"
    using assms(4) by blast
  from prescaled_near [OF plain scaled small assms(2,3)] obtain a
    where a: "foldl (\<lambda>result x_i. result + x_i * x_i) (Double (Fin 0))
                (map (\<lambda>v. Double (Fin v) / Double (Fin g)) ?t) *
              (Double (Fin g) * Double (Fin g)) = Double (Fin a)"
      "near (length ?t + 5) (\<Sum>v\<leftarrow>?t. v * v) a"
    by blast
  from unscaled_near [OF plain small] obtain b
    where b: "foldl (\<lambda>result x_i. result + x_i * x_i) (Double (Fin 0))
                (map (\<lambda>v. Double (Fin v)) ?t) = Double (Fin b)"
      "near (length ?t + 1) (\<Sum>v\<leftarrow>?t. v * v) b"
    by blast
  have "map_option (\<lambda>err. err * (Double (Fin g) * Double (Fin g)))
          (f (map (\<lambda>v. Double (Fin v) / Double (Fin g)) xs) n) = Some (Double (Fin a))"
    unfolding f_rationals [OF assms(1)] using a(1) by simp
  moreover have "f (map (\<lambda>v. Double (Fin v)) xs) n = Some (Double (Fin b))"
    unfolding f_rationals [OF assms(1)] using b(1) by simp
  ultimately show ?thesis
    using a(2) b(2) unfolding len by blast
qed

theorem prescaling_up_to_rounding_witness:
  "\<exists>a b.
     map_option (\<lambda>err. err * (Double (Fin 100) * Double (Fin 100)))
       (f (map (\<lambda>v. Double (Fin v) / Double (Fin 100)) [1, 2, 3]) 3) = Some (Double (Fin a)) \<and>
     f (map (\<lambda>v. Double (Fin v)) [1, 2, 3]) 3 = Some (Double (Fin b)) \<and>
     near 8 14 a \<and> near 4 14 b"
  using prescaling_up_to_rounding [of 3 "[1, 2, 3]" 100] by simp

text \<open>
  The claim as stated fails: outside that range the two evaluations need not agree at all.
  With \<open>x[0] = 2 ^ 500\<close>, \<open>gamma = 1 / 2 ^ 100\<close> and \<open>n = 1\<close> the square of the prescaled component
  overflows, so that the prescaled evaluation is infinite, while \<open>f\<close> of the plain buffer is
  the finite value \<open>2 ^ 1000\<close>.
\<close>

theorem prescaling_overflow_counterexample:
  "map_option (\<lambda>err. err * (Double (Fin (1 / 2 ^ 100)) * Double (Fin (1 / 2 ^ 100))))
     (f (map (\<lambda>v. Double (Fin v) / Double (Fin (1 / 2 ^ 100))) [2 ^ 500]) 1) =
     Some (Double (Inf False)) \<and>
   f (map (\<lambda>v. Double (Fin v)) [2 ^ 500]) 1 = Some (Double (Fin (2 ^ 1000)))"
proof -
  have e1: "(2 ^ 500 / (1 / 2 ^ 100) :: rat) = 2 powi 600"
    by simp
  have e2: "(1 / 2 ^ 100 * (1 / 2 ^ 100) :: rat) = 2 powi (- 200)"
    by (simp add: power_int_minus_divide)
  have e3: "(2 ^ 500 * 2 ^ 500 :: rat) = 2 powi 1000"
    by simp
  have e4: "(2 powi 600 * 2 powi 600 :: rat) = 2 powi 1200"
    by simp
  have e5: "(2 ^ 1000 :: rat) = 2 powi 1000"
    by simp
  have scaled: "Double (Fin (2 ^ 500)) / Double (Fin (1 / 2 ^ 100)) = Double (Fin (2 powi 600))"
    unfolding divide_double_def by (simp only: double.sel fp_div.simps e1 fround64_pow2; simp)
  have square: "Double (Fin (2 powi 600)) * Double (Fin (2 powi 600)) = Double (Inf False)"
    unfolding times_double_def by (simp only: double.sel fp_mul.simps e4 fround64_pow2_overflow; simp)
  have gg: "Double (Fin (1 / 2 ^ 100)) * Double (Fin (1 / 2 ^ 100)) = Double (Fin (2 powi (- 200)))"
    unfolding times_double_def by (simp only: double.sel fp_mul.simps e2 fround64_pow2; simp)
  have sum: "Double (Fin 0) + Double (Inf False) = Double (Inf False)"
    by (simp add: plus_double_def)
  have rescaled: "Double (Inf False) * Double (Fin (2 powi (- 200))) = Double (Inf False)"
    unfolding times_double_def by (simp only: double.sel fp_mul.simps; simp)
  have plain: "Double (Fin (2 ^ 500)) * Double (Fin (2 ^ 500)) = Double (Fin (2 powi 1000))"
    unfolding times_double_def by (simp only: double.sel fp_mul.simps e3 fround64_pow2; simp)
  have sum': "Double (Fin 0) + Double (Fin (2 powi 1000)) = Double (Fin (2 powi 1000))"
    unfolding plus_double_def by (simp only: double.sel fp_add.simps add_0_left fround64_pow2; simp)
  have first: "take (unat (1 :: 32 word)) [2 ^ 500 :: rat] = [2 ^ 500]"
    by simp
  have left: "f (map (\<lambda>v. Double (Fin v) / Double (Fin (1 / 2 ^ 100))) [2 ^ 500]) 1 =
        Some (Double (Inf False))"
    using f_rationals [of 1 "[2 ^ 500]" "\<lambda>v. Double (Fin v) / Double (Fin (1 / 2 ^ 100))"]
    unfolding first list.map foldl.simps scaled square sum by simp
  have right: "f (map (\<lambda>v. Double (Fin v)) [2 ^ 500]) 1 = Some (Double (Fin (2 powi 1000)))"
    using f_rationals [of 1 "[2 ^ 500]" "\<lambda>v. Double (Fin v)"]
    unfolding first list.map foldl.simps plain sum' by simp
  show ?thesis
    unfolding left right e5 option.map gg rescaled by simp
qed

end
